theory Spec2Isabelle
  imports Main "HOL-Library.Char_ord" "HOL-Library.List_Lexorder"
begin

section \<open>C strings and the line reader of the chat server\<close>

text \<open>
  The server of \<^verbatim>\<open>server.c\<close> works on NUL-terminated byte strings. A buffer is modelled
  as the list of the bytes written to it; the C string it holds is the part before the
  first NUL byte.
\<close>

definition NUL :: char where
  "NUL = CHR 0x00"

definition CR :: char where
  "CR = CHR 0x0D"

definition LF :: char where
  "LF = CHR 0x0A"

definition SP :: char where
  "SP = CHR '' ''"

definition cstr :: "string \<Rightarrow> string" where
  "cstr buf = takeWhile (\<lambda>c. c \<noteq> NUL) buf"

text \<open>
  \<^verbatim>\<open>strncmp(a, b, n) == 0\<close> for two C strings: the first \<open>n\<close> bytes agree, the terminating
  NUL included when it comes earlier.
\<close>

definition strncmp_eq :: "string \<Rightarrow> string \<Rightarrow> nat \<Rightarrow> bool" where
  "strncmp_eq a b n = (take n (a @ [NUL]) = take n (b @ [NUL]))"

text \<open>
  \<^verbatim>\<open>strncpy(dst, src, n)\<close> into a zeroed field of \<open>n\<close> bytes: at most \<open>n\<close> bytes of the
  source are copied.
\<close>

definition strncpy :: "string \<Rightarrow> nat \<Rightarrow> string" where
  "strncpy src n = take n src"

text \<open>
  \<^verbatim>\<open>read_line(fd, buffer, max_len)\<close> reads the socket one byte at a time. The bytes still
  to arrive on the socket are a list; once they are used up \<^verbatim>\<open>recv\<close> returns \<open>0\<close> (the
  peer closed the stream) or \<open>-1\<close> (a read error). The loop variable \<^verbatim>\<open>offset\<close> is the
  length of the bytes stored so far. The result is the return value, the stored bytes
  and the bytes left on the socket.
\<close>

datatype recv_end = Peer_closed | Recv_error

fun recv_rc :: "recv_end \<Rightarrow> int" where
  "recv_rc Peer_closed = 0"
| "recv_rc Recv_error = -1"

fun read_line_loop :: "recv_end \<Rightarrow> nat \<Rightarrow> string \<Rightarrow> char list \<Rightarrow> int \<times> string \<times> char list" where
  "read_line_loop e max_len buffer [] =
     (if length buffer < max_len - 1 then (recv_rc e, buffer, [])
      else (int (length buffer), buffer, []))"
| "read_line_loop e max_len buffer (c # cs) =
     (if length buffer < max_len - 1 then
        (if c = CR then read_line_loop e max_len buffer cs
         else if c = LF then (int (length buffer), buffer, cs)
         else read_line_loop e max_len (buffer @ [c]) cs)
      else (int (length buffer), buffer, c # cs))"

definition read_line :: "recv_end \<Rightarrow> nat \<Rightarrow> char list \<Rightarrow> int \<times> string \<times> char list" where
  "read_line e max_len inp = read_line_loop e max_len [] inp"

text \<open>
  \<^verbatim>\<open>trim_newline(str)\<close>: the loop walks back from the last byte and overwrites line feeds,
  carriage returns and spaces with NUL until it meets another byte or the start.
\<close>

definition is_trimmed :: "char \<Rightarrow> bool" where
  "is_trimmed c = (c = LF \<or> c = CR \<or> c = SP)"

fun trim_loop :: "string \<Rightarrow> nat \<Rightarrow> string" where
  "trim_loop str 0 = []"
| "trim_loop str (Suc e) =
     (if is_trimmed (str ! e) then trim_loop str e else take (Suc e) str)"

definition trim_newline :: "string \<Rightarrow> string" where
  "trim_newline str = (if length str = 0 then str else trim_loop str (length str))"

section \<open>The persistence gateway (\<^verbatim>\<open>storage.c\<close>, SQLite build)\<close>

text \<open>
  The table \<^verbatim>\<open>messages\<close> of \<^verbatim>\<open>storage_init\<close>: one record per row, the rows kept in
  rowid order. \<^verbatim>\<open>created_at\<close> holds the text \<^verbatim>\<open>YYYY-MM-DD HH:MM:SS\<close> that
  \<^verbatim>\<open>CURRENT_TIMESTAMP\<close> gives; SQLite compares such text byte by byte, which is the
  lexicographic order on strings used here.  \<^verbatim>\<open>col_seq\<close> is the counter that
  \<^verbatim>\<open>AUTOINCREMENT\<close> keeps: the largest rowid ever handed out.
\<close>

record message_row =
  col_id :: nat
  col_sender :: string
  col_receiver :: string
  col_body :: string
  col_created_at :: string

record storage =
  rows :: "message_row list"
  col_seq :: nat
  last_error :: string

text \<open>
  What the SQLite library does during one call of the gateway is not decided by the
  program: whether \<^verbatim>\<open>sqlite3_prepare_v2\<close> returns \<^verbatim>\<open>SQLITE_OK\<close>, whether
  \<^verbatim>\<open>sqlite3_step\<close> ends with \<^verbatim>\<open>SQLITE_DONE\<close>, after how many rows a query breaks off
  with an error (\<open>None\<close>: it does not), the value of \<^verbatim>\<open>CURRENT_TIMESTAMP\<close> and the text
  of \<^verbatim>\<open>sqlite3_errmsg\<close>.
\<close>

record sql_env =
  prepare_ok :: bool
  step_done :: bool
  row_limit :: "nat option"
  now :: string
  errmsg :: string

definition MAX_ERROR_LEN :: nat where
  "MAX_ERROR_LEN = 256"

definition set_error :: "string \<Rightarrow> string \<Rightarrow> storage \<Rightarrow> storage" where
  "set_error fmt detail st = st\<lparr>last_error := take (MAX_ERROR_LEN - 1) (fmt @ detail)\<rparr>"

definition storage_last_error :: "storage \<Rightarrow> string" where
  "storage_last_error st = (if last_error st \<noteq> [] then last_error st else ''unknown error'')"

text \<open>
  \<^verbatim>\<open>WHERE (sender=? AND receiver=?) OR (sender=? AND receiver=?)\<close> with the parameters bound
  to \<open>user_a, user_b, user_b, user_a\<close>.
\<close>

definition in_conversation :: "string \<Rightarrow> string \<Rightarrow> message_row \<Rightarrow> bool" where
  "in_conversation user_a user_b r =
     ((col_sender r = user_a \<and> col_receiver r = user_b) \<or>
      (col_sender r = user_b \<and> col_receiver r = user_a))"

text \<open>
  \<^verbatim>\<open>INSERT INTO messages (sender, receiver, body) VALUES (?, ?, ?)\<close>: the new row takes
  the next rowid and the current timestamp, and is the last row in rowid order.
\<close>

definition insert_message :: "string \<Rightarrow> string \<Rightarrow> string \<Rightarrow> string \<Rightarrow> storage \<Rightarrow> storage" where
  "insert_message ts sender receiver body st =
     st\<lparr>rows := rows st @
            [\<lparr>col_id = Suc (col_seq st), col_sender = sender, col_receiver = receiver,
              col_body = body, col_created_at = ts\<rparr>],
        col_seq := Suc (col_seq st)\<rparr>"

definition storage_store_message :: "sql_env \<Rightarrow> string \<Rightarrow> string \<Rightarrow> string \<Rightarrow> storage \<Rightarrow> int \<times> storage" where
  "storage_store_message env sender receiver body st =
     (if \<not> prepare_ok env then (-1, set_error ''Failed to prepare insert: '' (errmsg env) st)
      else if \<not> step_done env then (-1, set_error ''Failed to store message: '' (errmsg env) st)
      else (0, insert_message (now env) sender receiver body st))"

text \<open>
  \<^verbatim>\<open>SELECT datetime(created_at), sender, body FROM messages WHERE ... ORDER BY created_at ASC\<close>:
  the table is scanned in rowid order, the rows of the conversation are kept and sorted
  on \<^verbatim>\<open>created_at\<close> alone. SQLite's sorter keeps rows with equal keys in the order
  in which the scan delivered them, which is what \<open>sort_key\<close> does.
\<close>

definition select_conversation :: "string \<Rightarrow> string \<Rightarrow> storage \<Rightarrow> message_row list" where
  "select_conversation user_a user_b st =
     sort_key col_created_at (filter (in_conversation user_a user_b) (rows st))"

text \<open>
  The rows that \<^verbatim>\<open>sqlite3_step\<close> hands to the loop of \<^verbatim>\<open>storage_fetch_conversation\<close>
  before it stops returning \<^verbatim>\<open>SQLITE_ROW\<close>.
\<close>

definition stepped_rows :: "sql_env \<Rightarrow> string \<Rightarrow> string \<Rightarrow> storage \<Rightarrow> message_row list" where
  "stepped_rows env user_a user_b st =
     (case row_limit env of
        None \<Rightarrow> select_conversation user_a user_b st
      | Some n \<Rightarrow> take n (select_conversation user_a user_b st))"

text \<open>
  The callback receives the three columns of each row and the context, which it may
  change; the loop is a fold over the rows. The function returns \<open>0\<close> whenever the
  statement could be prepared.
\<close>

fun fetch_loop :: "(string \<Rightarrow> string \<Rightarrow> string \<Rightarrow> 'c \<Rightarrow> 'c) \<Rightarrow> message_row list \<Rightarrow> 'c \<Rightarrow> 'c" where
  "fetch_loop cb [] ctx = ctx"
| "fetch_loop cb (r # rs) ctx = fetch_loop cb rs (cb (col_created_at r) (col_sender r) (col_body r) ctx)"

definition storage_fetch_conversation ::
  "sql_env \<Rightarrow> string \<Rightarrow> string \<Rightarrow> (string \<Rightarrow> string \<Rightarrow> string \<Rightarrow> 'c \<Rightarrow> 'c) \<Rightarrow> 'c \<Rightarrow> storage
     \<Rightarrow> int \<times> 'c \<times> storage" where
  "storage_fetch_conversation env user_a user_b cb ctx st =
     (if \<not> prepare_ok env then (-1, ctx, set_error ''Failed to query history: '' (errmsg env) st)
      else (0, fetch_loop cb (stepped_rows env user_a user_b st) ctx, st))"

text \<open>
  \<^verbatim>\<open>DELETE FROM messages WHERE (sender=? AND receiver=?) OR (sender=? AND receiver=?)\<close>.
\<close>

definition storage_delete_conversation :: "sql_env \<Rightarrow> string \<Rightarrow> string \<Rightarrow> storage \<Rightarrow> int \<times> storage" where
  "storage_delete_conversation env user_a user_b st =
     (if \<not> prepare_ok env then (-1, set_error ''Failed to prepare delete: '' (errmsg env) st)
      else if \<not> step_done env then (-1, set_error ''Failed to delete history: '' (errmsg env) st)
      else (0, st\<lparr>rows := filter (\<lambda>r. \<not> in_conversation user_a user_b r) (rows st)\<rparr>))"

text \<open>A callback that collects what it is given, to observe a fetch.\<close>

definition collect :: "string \<Rightarrow> string \<Rightarrow> string \<Rightarrow> (string \<times> string \<times> string) list
    \<Rightarrow> (string \<times> string \<times> string) list" where
  "collect timestamp sender body acc = acc @ [(timestamp, sender, body)]"

definition fetched :: "sql_env \<Rightarrow> string \<Rightarrow> string \<Rightarrow> storage \<Rightarrow> int \<times> (string \<times> string \<times> string) list" where
  "fetched env user_a user_b st =
     (case storage_fetch_conversation env user_a user_b collect [] st of
        (rc, out, st') \<Rightarrow> (rc, out))"

text \<open>The stores that the gateway can reach from the empty table of \<^verbatim>\<open>storage_init\<close>.\<close>

definition storage_init :: storage where
  "storage_init = \<lparr>rows = [], col_seq = 0, last_error = []\<rparr>"

inductive reachable_storage :: "storage \<Rightarrow> bool" where
  init: "reachable_storage storage_init"
| store: "reachable_storage st \<Longrightarrow>
          reachable_storage (snd (storage_store_message env sender receiver body st))"
| delete: "reachable_storage st \<Longrightarrow>
          reachable_storage (snd (storage_delete_conversation env user_a user_b st))"
| fetch: "reachable_storage st \<Longrightarrow>
          reachable_storage (snd (snd (storage_fetch_conversation env user_a user_b collect [] st)))"

text \<open>
  The invariant of the table: rowids grow along the table and none exceeds the counter.
\<close>

definition storage_ok :: "storage \<Rightarrow> bool" where
  "storage_ok st = (sorted_wrt (<) (map col_id (rows st)) \<and> list_all (\<lambda>r. col_id r \<le> col_seq st) (rows st))"

text \<open>The three columns a fetch hands to its callback.\<close>

definition row_triple :: "message_row \<Rightarrow> string \<times> string \<times> string" where
  "row_triple r = (col_created_at r, col_sender r, col_body r)"


text \<open>A call during which SQLite reports no error, at the given timestamp.\<close>

definition env_at :: "string \<Rightarrow> sql_env" where
  "env_at ts = \<lparr>prepare_ok = True, step_done = True, row_limit = None, now = ts, errmsg = []\<rparr>"

section \<open>Sessions and the shared state of the server (\<^verbatim>\<open>server.c\<close>)\<close>

definition MAX_USERNAME :: nat where
  "MAX_USERNAME = 32"

text \<open>
  A session is a \<^verbatim>\<open>client_session_t\<close> allocated by the accept loop and known by its
  address. \<open>mem\<close> gives the struct stored at each address; the chain that starts at
  \<^verbatim>\<open>clients_head\<close> and follows \<^verbatim>\<open>next\<close> is the list of the addresses on it, head first.
\<close>

type_synonym addr = nat

record client_session =
  socket_fd :: int
  username :: string
  authenticated :: bool

text \<open>
  What the server does to the outside and to its locks is recorded, in order, in a trace:
  the registry lock \<^verbatim>\<open>clients_lock\<close>, the per-session \<^verbatim>\<open>send_lock\<close>, every
  \<^verbatim>\<open>send\<close> on a socket with the bytes passed to it, the lines written to the server's
  own standard streams, and the release of a session. A \<open>Send\<close> event records the call
  and its bytes. What the kernel makes of the call is not part of the state: whether the
  bytes arrive, whether the call returns an error, or whether a write to a connection
  that the peer has reset raises \<^verbatim>\<open>SIGPIPE\<close> (the server calls \<^verbatim>\<open>send\<close> with flags 0 and
  installs handlers for \<^verbatim>\<open>SIGINT\<close> and \<^verbatim>\<open>SIGTERM\<close> only). The properties below are
  therefore about the calls that the server makes and the data it keeps, never about
  delivery or about the process surviving a \<^verbatim>\<open>send\<close>.
\<close>

datatype event =
    Lock_clients
  | Unlock_clients
  | Lock_send addr
  | Unlock_send addr
  | Send int string
  | Stderr string
  | Stdout string
  | Close int
  | Destroy_send addr
  | Free addr

record server =
  mem :: "addr \<Rightarrow> client_session"
  clients_head :: "addr list"
  server_running :: bool
  store :: storage
  trace :: "event list"

definition emit :: "event \<Rightarrow> server \<Rightarrow> server" where
  "emit ev s = s\<lparr>trace := trace s @ [ev]\<rparr>"

text \<open>
  \<^verbatim>\<open>send_formatted\<close>: \<^verbatim>\<open>vsnprintf\<close> keeps at most 2047 bytes of the formatted text, a
  line feed is added when there is room for it, and the result is sent under the
  session's \<^verbatim>\<open>send_lock\<close>. The value returned by \<^verbatim>\<open>send\<close> is cast to void
  (\<^verbatim>\<open>best-effort send; errors handled by read loop\<close>), so no later statement of the server
  depends on it and the function has no branch on it.
\<close>

definition frame :: "string \<Rightarrow> string" where
  "frame text =
     (let buffer = take 2047 text
      in if length buffer < 2047 then buffer @ [LF] else buffer)"

definition send_formatted :: "addr \<Rightarrow> string \<Rightarrow> server \<Rightarrow> server" where
  "send_formatted session text s =
     emit (Unlock_send session)
       (emit (Send (socket_fd (mem s session)) (frame text))
         (emit (Lock_send session) s))"

fun broadcast_loop :: "addr list \<Rightarrow> server \<Rightarrow> server" where
  "broadcast_loop [] s = s"
| "broadcast_loop (cur # rest) s =
     broadcast_loop rest
       (if authenticated (mem s cur) then send_formatted cur ''SHUTDOWN Server shutting down...'' s
        else s)"

definition broadcast_shutdown_message :: "server \<Rightarrow> server" where
  "broadcast_shutdown_message s =
     emit Unlock_clients (broadcast_loop (clients_head s) (emit Lock_clients s))"

fun find_loop :: "(addr \<Rightarrow> client_session) \<Rightarrow> string \<Rightarrow> addr list \<Rightarrow> addr option" where
  "find_loop m uname [] = None"
| "find_loop m uname (cur # rest) =
     (if authenticated (m cur) \<and> strncmp_eq (username (m cur)) uname MAX_USERNAME then Some cur
      else find_loop m uname rest)"

definition find_client_by_name :: "string \<Rightarrow> server \<Rightarrow> addr option" where
  "find_client_by_name uname s = find_loop (mem s) uname (clients_head s)"

definition username_available :: "string \<Rightarrow> server \<Rightarrow> bool" where
  "username_available uname s = (find_client_by_name uname s = None)"

definition add_client :: "addr \<Rightarrow> server \<Rightarrow> server" where
  "add_client session s =
     emit Unlock_clients ((emit Lock_clients s)\<lparr>clients_head := session # clients_head s\<rparr>)"

text \<open>\<^verbatim>\<open>remove_client\<close> unlinks the first node of the chain that is the session.\<close>

definition remove_client :: "addr \<Rightarrow> server \<Rightarrow> server" where
  "remove_client session s =
     emit Unlock_clients ((emit Lock_clients s)\<lparr>clients_head := remove1 session (clients_head s)\<rparr>)"

fun users_loop :: "addr \<Rightarrow> addr list \<Rightarrow> server \<Rightarrow> server" where
  "users_loop session [] s = s"
| "users_loop session (cur # rest) s =
     users_loop session rest
       (if authenticated (mem s cur) then send_formatted session (''USER '' @ username (mem s cur)) s
        else s)"

definition notify_user_list :: "addr \<Rightarrow> server \<Rightarrow> server" where
  "notify_user_list session s =
     send_formatted session ''USERS_END''
       (emit Unlock_clients
         (users_loop session (clients_head s)
           (send_formatted session ''USERS_BEGIN'' (emit Lock_clients s))))"

definition deliver_message :: "sql_env \<Rightarrow> string \<Rightarrow> string \<Rightarrow> string \<Rightarrow> server \<Rightarrow> server" where
  "deliver_message env sender receiver body s =
     (let (rc, st) = storage_store_message env sender receiver body (store s);
          s1 = s\<lparr>store := st\<rparr>;
          s2 = (if rc \<noteq> 0
                then emit (Stderr (''Failed to persist message from '' @ sender @ '' to '' @ receiver
                                   @ '': '' @ storage_last_error st @ [LF])) s1
                else s1);
          s3 = emit Lock_clients s2;
          s4 = (case find_client_by_name receiver s3 of
                  Some target \<Rightarrow> send_formatted target (''MESSAGE '' @ sender @ '' '' @ body) s3
                | None \<Rightarrow> s3)
      in emit Unlock_clients s4)"

text \<open>
  The context of a history fetch is the \<^verbatim>\<open>history_context_t\<close> together with the server
  state, which the callback changes by sending.
\<close>

record history_context =
  hist_session :: addr
  hist_any :: bool

definition history_emit :: "string \<Rightarrow> string \<Rightarrow> string \<Rightarrow> history_context \<times> server
    \<Rightarrow> history_context \<times> server" where
  "history_emit timestamp sender body ctx =
     (case ctx of (hist, s) \<Rightarrow>
        (hist\<lparr>hist_any := True\<rparr>,
         send_formatted (hist_session hist) (''HISTORY '' @ timestamp @ '' '' @ sender @ '' '' @ body) s))"

text \<open>
  One pass through the body of the loop of \<^verbatim>\<open>client_worker\<close>, after a line has been
  read: \<open>line\<close> is the C string in the buffer. \<open>Continue\<close> goes on to the next line,
  \<open>Break\<close> leaves the loop.
\<close>

datatype flow = Continue | Break

definition worker_auth :: "addr \<Rightarrow> string \<Rightarrow> server \<Rightarrow> server" where
  "worker_auth session line s =
     (if strncmp_eq line ''AUTH '' 5 then
        (let uname = trim_newline (drop 5 line)
         in if length uname = 0 \<or> length uname \<ge> MAX_USERNAME
            then send_formatted session ''ERROR Invalid username length'' s
            else
              (let s1 = emit Lock_clients s;
                   available = username_available uname s1
               in if available
                  then
                    (let s2 = s1\<lparr>mem := (mem s1)(session := (mem s1 session)\<lparr>username := strncpy uname MAX_USERNAME\<rparr>)\<rparr>;
                         s3 = s2\<lparr>mem := (mem s2)(session := (mem s2 session)\<lparr>authenticated := True\<rparr>)\<rparr>;
                         s4 = emit Unlock_clients s3
                     in send_formatted session (''OK Authenticated as '' @ username (mem s4 session)) s4)
                  else send_formatted session ''ERROR Username taken'' (emit Unlock_clients s1)))
      else send_formatted session ''ERROR Authenticate first using AUTH <username>'' s)"

definition worker_send :: "sql_env \<Rightarrow> addr \<Rightarrow> string \<Rightarrow> server \<Rightarrow> server" where
  "worker_send env session line s =
     (let rest = drop 5 line
      in if SP \<notin> set rest
         then send_formatted session ''ERROR Usage: SEND <user> <message>'' s
         else
           (let target = takeWhile (\<lambda>c. c \<noteq> SP) rest;
                message = drop (Suc (length target)) rest
            in if length message = 0
               then send_formatted session ''ERROR Message cannot be empty'' s
               else send_formatted session ''OK Message queued''
                      (deliver_message env (username (mem s session)) target message s)))"

definition worker_get :: "sql_env \<Rightarrow> addr \<Rightarrow> string \<Rightarrow> server \<Rightarrow> server" where
  "worker_get env session line s =
     (let other = drop 4 line
      in if length other = 0
         then send_formatted session ''ERROR Usage: GET <user>'' s
         else
           (case storage_fetch_conversation env (username (mem s session)) other history_emit
                   (\<lparr>hist_session = session, hist_any = False\<rparr>, s) (store s) of
              (rc, (ctx, s1), st) \<Rightarrow>
                (let s2 = s1\<lparr>store := st\<rparr>
                 in if rc \<noteq> 0
                    then send_formatted session (''ERROR Failed to query history: '' @ storage_last_error st) s2
                    else if \<not> hist_any ctx
                    then send_formatted session (''INFO No messages with '' @ other) s2
                    else send_formatted session ''OK History end'' s2)))"

definition worker_delete :: "sql_env \<Rightarrow> addr \<Rightarrow> string \<Rightarrow> server \<Rightarrow> server" where
  "worker_delete env session line s =
     (let other = drop 7 line
      in if length other = 0
         then send_formatted session ''ERROR Usage: DELETE <user>'' s
         else
           (case storage_delete_conversation env (username (mem s session)) other (store s) of
              (rc, st) \<Rightarrow>
                (let s1 = s\<lparr>store := st\<rparr>
                 in if rc \<noteq> 0
                    then send_formatted session (''ERROR Failed to delete history: '' @ storage_last_error st) s1
                    else send_formatted session (''OK Deleted history with '' @ other) s1)))"

definition worker_command :: "sql_env \<Rightarrow> addr \<Rightarrow> string \<Rightarrow> server \<Rightarrow> flow \<times> server" where
  "worker_command env session line s =
     (if \<not> authenticated (mem s session) then (Continue, worker_auth session line s)
      else if strncmp_eq line ''SEND '' 5 then (Continue, worker_send env session line s)
      else if strncmp_eq line ''GET '' 4 then (Continue, worker_get env session line s)
      else if strncmp_eq line ''DELETE '' 7 then (Continue, worker_delete env session line s)
      else if line = ''USERS'' then (Continue, notify_user_list session s)
      else if line = ''QUIT'' then (Break, send_formatted session ''BYE'' s)
      else (Continue, send_formatted session ''ERROR Unknown command'' s))"

lemma read_line_loop_full:
  "\<not> length buffer < max_len - 1 \<Longrightarrow>
     read_line_loop e max_len buffer inp = (int (length buffer), buffer, inp)"
  by (cases inp) simp_all

lemma read_line_loop_consumes:
  "read_line_loop e max_len buffer inp = (n, line, rest) \<Longrightarrow> 0 < n \<Longrightarrow>
     n = int (length line) \<and> length line + length rest \<le> length buffer + length inp"
proof (induction inp arbitrary: buffer)
  case Nil
  then show ?case by (cases e) (auto split: if_splits)
next
  case (Cons c cs)
  show ?case
  proof (cases "length buffer < max_len - 1")
    case True
    show ?thesis
    proof (cases "c = CR")
      case True
      with Cons.prems \<open>length buffer < max_len - 1\<close>
      have "read_line_loop e max_len buffer cs = (n, line, rest)" by simp
      from Cons.IH[OF this Cons.prems(2)] show ?thesis by simp
    next
      case False
      show ?thesis
      proof (cases "c = LF")
        case True
        with Cons.prems \<open>length buffer < max_len - 1\<close> \<open>c \<noteq> CR\<close> show ?thesis by auto
      next
        case False
        with Cons.prems \<open>length buffer < max_len - 1\<close> \<open>c \<noteq> CR\<close>
        have "read_line_loop e max_len (buffer @ [c]) cs = (n, line, rest)" by simp
        from Cons.IH[OF this Cons.prems(2)] show ?thesis by simp
      qed
    qed
  next
    case False
    with Cons.prems show ?thesis by (auto simp: read_line_loop_full)
  qed
qed

lemma read_line_consumes:
  "read_line e max_len inp = (n, line, rest) \<Longrightarrow> 0 < n \<Longrightarrow> length rest < length inp"
proof -
  assume a: "read_line e max_len inp = (n, line, rest)" and b: "0 < n"
  from a have "read_line_loop e max_len [] inp = (n, line, rest)" by (simp add: read_line_def)
  from read_line_loop_consumes[OF this b]
  have "n = int (length line)" and "length line + length rest \<le> length inp" by simp_all
  with b show ?thesis by linarith
qed

text \<open>
  The loop of \<^verbatim>\<open>client_worker\<close>. The behaviour of SQLite during the \<open>i\<close>-th command is
  \<open>envs i\<close>. The loop ends when the flag \<^verbatim>\<open>server_running\<close> is down, when
  \<^verbatim>\<open>read_line\<close> returns a value that is not positive, or on \<^verbatim>\<open>QUIT\<close>.
\<close>

function client_worker_loop ::
  "(nat \<Rightarrow> sql_env) \<Rightarrow> nat \<Rightarrow> addr \<Rightarrow> recv_end \<Rightarrow> char list \<Rightarrow> server \<Rightarrow> server" where
  "client_worker_loop envs i session e inp s =
     (if \<not> server_running s then s
      else
        (case read_line e 2048 inp of
           (len, buffer, rest) \<Rightarrow>
             if len \<le> 0 then s
             else
               (case worker_command (envs i) session (cstr buffer) s of
                  (Break, s1) \<Rightarrow> s1
                | (Continue, s1) \<Rightarrow> client_worker_loop envs (Suc i) session e rest s1)))"
  by pat_completeness auto
termination
  by (relation "measure (\<lambda>(envs, i, session, e, inp, s). length inp)")
     (auto dest: read_line_consumes[OF sym])

declare client_worker_loop.simps [simp del]

text \<open>What \<^verbatim>\<open>client_worker\<close> does once the loop is left.\<close>

definition client_worker_exit :: "addr \<Rightarrow> server \<Rightarrow> server" where
  "client_worker_exit session s =
     (let s1 = emit (Destroy_send session) (emit (Close (socket_fd (mem s session))) s);
          s2 = (if authenticated (mem s1 session)
                then emit (Stdout (''User '' @ username (mem s1 session) @ '' disconnected'' @ [LF])) s1
                else s1)
      in emit (Free session) (remove_client session s2))"

definition client_worker ::
  "(nat \<Rightarrow> sql_env) \<Rightarrow> addr \<Rightarrow> recv_end \<Rightarrow> char list \<Rightarrow> server \<Rightarrow> server" where
  "client_worker envs session e inp s =
     client_worker_exit session
       (client_worker_loop envs 0 session e inp
         (send_formatted session ''WELCOME Provide AUTH <username>'' s))"

text \<open>
  One pass through the loop of \<^verbatim>\<open>accept_loop\<close> after \<^verbatim>\<open>accept\<close> has returned the
  socket \<open>client_fd\<close>: \<open>allocated\<close> is the address \<^verbatim>\<open>calloc\<close> returned, if any, and
  \<open>thread_ok\<close> says whether \<^verbatim>\<open>pthread_create\<close> succeeded.
\<close>

definition accept_client :: "addr option \<Rightarrow> bool \<Rightarrow> int \<Rightarrow> server \<Rightarrow> server" where
  "accept_client allocated thread_ok client_fd s =
     (case allocated of
        None \<Rightarrow> emit (Close client_fd) (emit (Stderr (''Out of memory'' @ [LF])) s)
      | Some session \<Rightarrow>
          (let s1 = s\<lparr>mem := (mem s)(session := \<lparr>socket_fd = client_fd, username = [], authenticated = False\<rparr>)\<rparr>;
               s2 = add_client session s1
           in if \<not> thread_ok
              then emit (Free session)
                     (emit (Destroy_send session)
                       (emit (Close client_fd)
                         (remove_client session
                           (emit (Stderr (''Failed to create worker thread'' @ [LF])) s2))))
              else emit (Stdout (''Incoming connection accepted'' @ [LF])) s2))"

text \<open>The server before the first connection, with the store as \<^verbatim>\<open>storage_init\<close> left it.\<close>

definition server_init :: server where
  "server_init =
     \<lparr>mem = (\<lambda>a. \<lparr>socket_fd = 0, username = [], authenticated = False\<rparr>),
      clients_head = [], server_running = True, store = storage_init, trace = []\<rparr>"

section \<open>Observations on inputs and traces, and two example states\<close>

text \<open>An input with every carriage return removed.\<close>

definition strip_cr :: "char list \<Rightarrow> char list" where
  "strip_cr inp = filter (\<lambda>c. c \<noteq> CR) inp"

text \<open>The sends of a trace, in order: the socket and the bytes.\<close>

fun sends :: "event list \<Rightarrow> (int \<times> string) list" where
  "sends [] = []"
| "sends (Send fd text # evs) = (fd, text) # sends evs"
| "sends (ev # evs) = sends evs"

text \<open>
  Two states for worked examples: two connections accepted on the sockets 4 and 5, their
  sessions at the addresses 10 and 20; and the same after \<^verbatim>\<open>AUTH alice\<close> on the first and
  \<^verbatim>\<open>AUTH bob\<close> on the second.
\<close>

definition two_clients :: server where
  "two_clients = accept_client (Some 20) True 5 (accept_client (Some 10) True 4 server_init)"

definition alice_bob :: server where
  "alice_bob =
     snd (worker_command (env_at []) 20 ''AUTH bob''
       (snd (worker_command (env_at []) 10 ''AUTH alice'' two_clients)))"


text \<open>
  Whether a trace holds a \<^verbatim>\<open>send\<close> made while the registry lock \<^verbatim>\<open>clients_lock\<close> is
  held; \<open>held\<close> says whether the lock is held where the trace starts.
\<close>

fun send_under_lock :: "bool \<Rightarrow> event list \<Rightarrow> bool" where
  "send_under_lock held [] = False"
| "send_under_lock held (Lock_clients # evs) = send_under_lock True evs"
| "send_under_lock held (Unlock_clients # evs) = send_under_lock False evs"
| "send_under_lock held (Send fd text # evs) = (held \<or> send_under_lock held evs)"
| "send_under_lock held (ev # evs) = send_under_lock held evs"

text \<open>The events that an operation added to the trace.\<close>

definition new_events :: "server \<Rightarrow> server \<Rightarrow> event list" where
  "new_events s s' = drop (length (trace s)) (trace s')"

text \<open>
  The sends of a trace made while the registry lock is held, and those made while it is
  free, each in order.
\<close>

fun locked_sends :: "bool \<Rightarrow> event list \<Rightarrow> (int \<times> string) list" where
  "locked_sends held [] = []"
| "locked_sends held (Lock_clients # evs) = locked_sends True evs"
| "locked_sends held (Unlock_clients # evs) = locked_sends False evs"
| "locked_sends held (Send fd text # evs) =
     (if held then (fd, text) # locked_sends held evs else locked_sends held evs)"
| "locked_sends held (ev # evs) = locked_sends held evs"

fun unlocked_sends :: "bool \<Rightarrow> event list \<Rightarrow> (int \<times> string) list" where
  "unlocked_sends held [] = []"
| "unlocked_sends held (Lock_clients # evs) = unlocked_sends True evs"
| "unlocked_sends held (Unlock_clients # evs) = unlocked_sends False evs"
| "unlocked_sends held (Send fd text # evs) =
     (if held then unlocked_sends held evs else (fd, text) # unlocked_sends held evs)"
| "unlocked_sends held (ev # evs) = unlocked_sends held evs"

text \<open>
  Whether every \<^verbatim>\<open>send\<close> of a trace is made while the \<^verbatim>\<open>send_lock\<close> of a session is held
  whose socket is the one written to, the locks being taken one at a time and released
  by the end; \<open>holder\<close> is the session whose \<^verbatim>\<open>send_lock\<close> is held where the trace starts.
\<close>

fun sends_guarded :: "(addr \<Rightarrow> client_session) \<Rightarrow> addr option \<Rightarrow> event list \<Rightarrow> bool" where
  "sends_guarded m holder [] = (holder = None)"
| "sends_guarded m holder (Lock_send p # evs) = (holder = None \<and> sends_guarded m (Some p) evs)"
| "sends_guarded m holder (Unlock_send p # evs) = (holder = Some p \<and> sends_guarded m None evs)"
| "sends_guarded m holder (Send fd text # evs) =
     ((case holder of None \<Rightarrow> False | Some p \<Rightarrow> fd = socket_fd (m p)) \<and> sends_guarded m holder evs)"
| "sends_guarded m holder (ev # evs) = sends_guarded m holder evs"

section \<open>Interleaved \<^verbatim>\<open>AUTH\<close> attempts\<close>

text \<open>
  Several workers run the \<^verbatim>\<open>AUTH\<close> branch of \<^verbatim>\<open>client_worker\<close> (lines 215 to 225 of
  \<^verbatim>\<open>server.c\<close>) for the same, already trimmed and length-checked name. Each worker is at
  one statement of the branch; a step of the system runs the next statement of one worker.
  \<open>At_lock\<close> is before \<^verbatim>\<open>pthread_mutex_lock\<close>, \<open>At_check\<close> before the call of
  \<^verbatim>\<open>username_available\<close> and the test of its result, \<open>At_copy\<close> before \<^verbatim>\<open>strncpy\<close>,
  \<open>At_flag\<close> before the assignment to \<^verbatim>\<open>authenticated\<close>, \<open>At_unlock_ok\<close> and
  \<open>At_unlock_taken\<close> before the \<^verbatim>\<open>pthread_mutex_unlock\<close> of the two branches,
  \<open>At_send_ok\<close> and \<open>At_send_taken\<close> before the reply. \<open>Done_ok\<close> is a worker that has
  sent \<^verbatim>\<open>OK Authenticated as ...\<close>, \<open>Done_taken\<close> one that has sent
  \<^verbatim>\<open>ERROR Username taken\<close>. \<open>Idle\<close> is a session that takes no part.
\<close>

datatype auth_pc =
    Idle
  | At_lock
  | At_check
  | At_copy
  | At_flag
  | At_unlock_ok
  | At_send_ok
  | At_unlock_taken
  | At_send_taken
  | Done_ok
  | Done_taken

record auth_race =
  srv :: server
  lock_owner :: "addr option"
  pc :: "addr \<Rightarrow> auth_pc"

text \<open>
  The next statement of the worker of session \<open>p\<close>. A worker that waits for the mutex,
  and one that has finished, leave the system as it is.
\<close>

definition auth_thread_step :: "string \<Rightarrow> addr \<Rightarrow> auth_race \<Rightarrow> auth_race" where
  "auth_thread_step uname p c =
     (case pc c p of
        At_lock \<Rightarrow>
          (if lock_owner c = None
           then c\<lparr>srv := emit Lock_clients (srv c), lock_owner := Some p, pc := (pc c)(p := At_check)\<rparr>
           else c)
      | At_check \<Rightarrow>
          c\<lparr>pc := (pc c)(p := if username_available uname (srv c) then At_copy else At_unlock_taken)\<rparr>
      | At_copy \<Rightarrow>
          c\<lparr>srv := (srv c)\<lparr>mem := (mem (srv c))(p := (mem (srv c) p)\<lparr>username := strncpy uname MAX_USERNAME\<rparr>)\<rparr>,
            pc := (pc c)(p := At_flag)\<rparr>
      | At_flag \<Rightarrow>
          c\<lparr>srv := (srv c)\<lparr>mem := (mem (srv c))(p := (mem (srv c) p)\<lparr>authenticated := True\<rparr>)\<rparr>,
            pc := (pc c)(p := At_unlock_ok)\<rparr>
      | At_unlock_ok \<Rightarrow>
          c\<lparr>srv := emit Unlock_clients (srv c), lock_owner := None, pc := (pc c)(p := At_send_ok)\<rparr>
      | At_send_ok \<Rightarrow>
          c\<lparr>srv := send_formatted p (''OK Authenticated as '' @ username (mem (srv c) p)) (srv c),
            pc := (pc c)(p := Done_ok)\<rparr>
      | At_unlock_taken \<Rightarrow>
          c\<lparr>srv := emit Unlock_clients (srv c), lock_owner := None, pc := (pc c)(p := At_send_taken)\<rparr>
      | At_send_taken \<Rightarrow>
          c\<lparr>srv := send_formatted p ''ERROR Username taken'' (srv c), pc := (pc c)(p := Done_taken)\<rparr>
      | _ \<Rightarrow> c)"

text \<open>A schedule names the worker that runs at each step.\<close>

fun auth_run :: "string \<Rightarrow> addr list \<Rightarrow> auth_race \<Rightarrow> auth_race" where
  "auth_run uname [] c = c"
| "auth_run uname (p # sched) c = auth_run uname sched (auth_thread_step uname p c)"

text \<open>
  Where a worker stands: between lock and unlock of the mutex; with its flag set; with the
  name written to its session; after it found the name free and before it set its flag;
  after it found the name taken.
\<close>

fun holds_lock :: "auth_pc \<Rightarrow> bool" where
  "holds_lock At_check = True"
| "holds_lock At_copy = True"
| "holds_lock At_flag = True"
| "holds_lock At_unlock_ok = True"
| "holds_lock At_unlock_taken = True"
| "holds_lock _ = False"

fun flag_up :: "auth_pc \<Rightarrow> bool" where
  "flag_up At_unlock_ok = True"
| "flag_up At_send_ok = True"
| "flag_up Done_ok = True"
| "flag_up _ = False"

fun name_written :: "auth_pc \<Rightarrow> bool" where
  "name_written At_flag = True"
| "name_written l = flag_up l"

fun saw_free :: "auth_pc \<Rightarrow> bool" where
  "saw_free At_copy = True"
| "saw_free At_flag = True"
| "saw_free _ = False"

fun saw_taken :: "auth_pc \<Rightarrow> bool" where
  "saw_taken At_unlock_taken = True"
| "saw_taken At_send_taken = True"
| "saw_taken Done_taken = True"
| "saw_taken _ = False"

text \<open>No two authenticated sessions of the client list carry the same name.\<close>

definition names_unique :: "server \<Rightarrow> bool" where
  "names_unique s =
     (\<forall>p \<in> set (clients_head s). \<forall>q \<in> set (clients_head s).
        p \<noteq> q \<and> authenticated (mem s p) \<and> authenticated (mem s q)
          \<longrightarrow> username (mem s p) \<noteq> username (mem s q))"

text \<open>
  The start of a race for the name \<open>uname\<close> among the sessions \<open>T\<close>: the mutex is free,
  the name has passed the length check and is free, and the sessions of \<open>T\<close> are
  unauthenticated sessions of the client list about to take the lock.
\<close>

definition auth_start :: "string \<Rightarrow> addr set \<Rightarrow> auth_race \<Rightarrow> bool" where
  "auth_start uname T c =
     (lock_owner c = None \<and> length uname < MAX_USERNAME \<and>
      T \<subseteq> set (clients_head (srv c)) \<and>
      (\<forall>p. pc c p = (if p \<in> T then At_lock else Idle)) \<and>
      (\<forall>p \<in> T. \<not> authenticated (mem (srv c) p)) \<and>
      username_available uname (srv c) \<and>
      names_unique (srv c))"

text \<open>
  What holds in every system that a schedule leads to from the start \<open>c0\<close>: the client list
  is as it was, sessions outside \<open>T\<close> are untouched, the owner of the mutex is the one
  worker between lock and unlock, the flag of a worker is up exactly from \<open>At_unlock_ok\<close>
  on, a worker past \<^verbatim>\<open>strncpy\<close> carries the name, what a worker saw of the name still
  holds, and names are unique.
\<close>

definition auth_inv :: "string \<Rightarrow> addr set \<Rightarrow> auth_race \<Rightarrow> auth_race \<Rightarrow> bool" where
  "auth_inv uname T c0 c =
     (clients_head (srv c) = clients_head (srv c0) \<and>
      (\<forall>q. q \<notin> T \<longrightarrow> pc c q = Idle \<and> mem (srv c) q = mem (srv c0) q) \<and>
      (\<forall>p. (lock_owner c = Some p) = holds_lock (pc c p)) \<and>
      (\<forall>p \<in> T. pc c p \<noteq> Idle \<and> authenticated (mem (srv c) p) = flag_up (pc c p)) \<and>
      (\<forall>p. name_written (pc c p) \<longrightarrow> username (mem (srv c) p) = uname) \<and>
      (\<forall>p. saw_free (pc c p) \<longrightarrow> username_available uname (srv c)) \<and>
      (\<forall>p. saw_taken (pc c p) \<longrightarrow> \<not> username_available uname (srv c)) \<and>
      names_unique (srv c))"

text \<open>
  The replies that finished workers have been sent: every \<open>Done_ok\<close> session has been sent
  the acknowledgement for the name, every \<open>Done_taken\<close> session the rejection.
\<close>

definition auth_replies :: "string \<Rightarrow> auth_race \<Rightarrow> bool" where
  "auth_replies uname c =
     (\<forall>p. (pc c p = Done_ok \<longrightarrow>
             Send (socket_fd (mem (srv c) p)) (frame (''OK Authenticated as '' @ uname))
               \<in> set (trace (srv c))) \<and>
          (pc c p = Done_taken \<longrightarrow>
             Send (socket_fd (mem (srv c) p)) (frame ''ERROR Username taken'') \<in> set (trace (srv c))))"

text \<open>
  The number of statements a worker still has to run at most, and the sum over the
  workers of a race.
\<close>

fun steps_left :: "auth_pc \<Rightarrow> nat" where
  "steps_left At_lock = 6"
| "steps_left At_check = 5"
| "steps_left At_copy = 4"
| "steps_left At_flag = 3"
| "steps_left At_unlock_ok = 2"
| "steps_left At_send_ok = 1"
| "steps_left At_unlock_taken = 2"
| "steps_left At_send_taken = 1"
| "steps_left _ = 0"

definition work_left :: "addr set \<Rightarrow> auth_race \<Rightarrow> nat" where
  "work_left T c = (\<Sum>p \<in> T. steps_left (pc c p))"

text \<open>A worker that has been sent its reply.\<close>

fun finished :: "auth_pc \<Rightarrow> bool" where
  "finished Done_ok = True"
| "finished Done_taken = True"
| "finished _ = False"

text \<open>
  A race of three accepted sessions for the name \<^verbatim>\<open>carol\<close>, and a schedule in which the
  other workers wait for the mutex while the first registers.
\<close>

definition race_start :: auth_race where
  "race_start =
     \<lparr>srv = accept_client (Some 30) True 6 two_clients, lock_owner = None,
      pc = (\<lambda>p. if p \<in> {10, 20, 30} then At_lock else Idle)\<rparr>"

definition race_schedule :: "addr list" where
  "race_schedule = [10, 20, 30, 10, 10, 20, 10, 10, 30, 10, 30, 20, 30, 20, 30, 20, 20, 20]"

section \<open>Properties of the line reader\<close>

lemma CR_neq_LF: "CR \<noteq> LF" "LF \<noteq> CR"
  by (simp_all add: CR_def LF_def)

lemma read_line_loop_strip_cr:
  "read_line_loop e max_len buffer (strip_cr inp) =
     (case read_line_loop e max_len buffer inp of
        (n, line, rest) \<Rightarrow> (n, line, strip_cr rest))"
proof (induction inp arbitrary: buffer)
  case Nil
  then show ?case by (simp add: strip_cr_def)
next
  case (Cons c cs)
  show ?case
  proof (cases "length buffer < max_len - 1")
    case True
    with Cons show ?thesis by (simp add: strip_cr_def CR_neq_LF)
  next
    case False
    then show ?thesis by (simp add: read_line_loop_full)
  qed
qed

lemma read_line_strip_cr:
  "read_line e max_len (strip_cr inp) =
     (case read_line e max_len inp of (n, line, rest) \<Rightarrow> (n, line, strip_cr rest))"
  by (simp add: read_line_def read_line_loop_strip_cr)

lemma client_worker_loop_strip_cr:
  "client_worker_loop envs i session e (strip_cr inp) s = client_worker_loop envs i session e inp s"
proof (induction envs i session e inp s rule: client_worker_loop.induct)
  case (1 envs i session e inp s)
  obtain len buffer rest where rl: "read_line e 2048 inp = (len, buffer, rest)"
    by (cases "read_line e 2048 inp") auto
  then have rl': "read_line e 2048 (strip_cr inp) = (len, buffer, strip_cr rest)"
    by (simp add: read_line_strip_cr)
  show ?case
  proof (cases "server_running s \<and> 0 < len")
    case False
    then show ?thesis
      by (subst (1 2) client_worker_loop.simps) (auto simp: rl rl')
  next
    case True
    obtain f s1 where wc: "worker_command (envs i) session (cstr buffer) s = (f, s1)"
      by (cases "worker_command (envs i) session (cstr buffer) s") auto
    show ?thesis
    proof (cases f)
      case Break
      with True wc show ?thesis
        by (subst (1 2) client_worker_loop.simps) (auto simp: rl rl')
    next
      case Continue
      from True have run: "\<not> \<not> server_running s" and pos: "\<not> len \<le> 0" by auto
      have ih: "client_worker_loop envs (Suc i) session e (strip_cr rest) s1 =
                client_worker_loop envs (Suc i) session e rest s1"
        using "1.IH"[OF run rl[symmetric] refl pos wc[symmetric]] Continue by simp
      have l: "client_worker_loop envs i session e (strip_cr inp) s
                 = client_worker_loop envs (Suc i) session e (strip_cr rest) s1"
        using True wc Continue by (subst client_worker_loop.simps) (simp add: rl')
      have r: "client_worker_loop envs i session e inp s
                 = client_worker_loop envs (Suc i) session e rest s1"
        using True wc Continue by (subst client_worker_loop.simps) (simp add: rl)
      from l r ih show ?thesis by simp
    qed
  qed
qed

text \<open>
  Claim C9 (carriage returns). \<^verbatim>\<open>read_line\<close> drops every carriage return, wherever it
  stands: on the input with all carriage returns removed it returns the same value and
  the same line, and leaves the same bytes on the socket up to carriage returns. The
  worker loop therefore ends in the same server state, with the same trace of replies,
  on both inputs.
\<close>

theorem carriage_returns_stripped:
  "read_line e max_len (strip_cr inp) =
     (case read_line e max_len inp of (n, line, rest) \<Rightarrow> (n, line, strip_cr rest)) \<and>
   client_worker_loop envs i session e (strip_cr inp) s = client_worker_loop envs i session e inp s"
  by (simp add: read_line_strip_cr client_worker_loop_strip_cr)

theorem carriage_returns_stripped_witness:
  "read_line Peer_closed 2048 (''QU'' @ [CR] @ ''IT'' @ [CR, LF] @ ''USERS'' @ [CR, LF])
     = (4, ''QUIT'', ''USERS'' @ [CR, LF]) \<and>
   read_line Peer_closed 2048 (''QUIT'' @ [LF] @ ''USERS'' @ [LF]) = (4, ''QUIT'', ''USERS'' @ [LF])"
proof -
  have a: "read_line Peer_closed 2048 (''QU'' @ [CR] @ ''IT'' @ [CR, LF] @ ''USERS'' @ [CR, LF])
     = (4, ''QUIT'', ''USERS'' @ [CR, LF])"
    by (simp add: read_line_def CR_def LF_def)
  have b: "strip_cr (''QU'' @ [CR] @ ''IT'' @ [CR, LF] @ ''USERS'' @ [CR, LF]) = ''QUIT'' @ [LF] @ ''USERS'' @ [LF]"
    by (simp add: strip_cr_def CR_def LF_def)
  have c: "strip_cr (''USERS'' @ [CR, LF]) = ''USERS'' @ [LF]"
    by (simp add: strip_cr_def CR_def LF_def)
  have "read_line Peer_closed 2048 (strip_cr (''QU'' @ [CR] @ ''IT'' @ [CR, LF] @ ''USERS'' @ [CR, LF])) =
     (case read_line Peer_closed 2048 (''QU'' @ [CR] @ ''IT'' @ [CR, LF] @ ''USERS'' @ [CR, LF]) of
        (n, line, rest) \<Rightarrow> (n, line, strip_cr rest))"
    using carriage_returns_stripped[of Peer_closed 2048
      "''QU'' @ [CR] @ ''IT'' @ [CR, LF] @ ''USERS'' @ [CR, LF]"] by (rule conjunct1)
  then have "read_line Peer_closed 2048 (''QUIT'' @ [LF] @ ''USERS'' @ [LF]) = (4, ''QUIT'', ''USERS'' @ [LF])"
    by (simp only: a b c prod.case)
  with a show ?thesis by simp
qed

section \<open>Properties of the persistence gateway\<close>


lemma storage_ok_init: "storage_ok storage_init"
  by (simp add: storage_ok_def storage_init_def)

lemma storage_ok_set_error: "storage_ok (set_error fmt detail st) = storage_ok st"
  by (simp add: storage_ok_def set_error_def)

lemma storage_ok_insert: "storage_ok st \<Longrightarrow> storage_ok (insert_message ts sender receiver body st)"
  by (auto simp: storage_ok_def insert_message_def sorted_wrt_append list_all_iff)

lemma storage_ok_store:
  "storage_ok st \<Longrightarrow> storage_ok (snd (storage_store_message env sender receiver body st))"
  by (simp add: storage_store_message_def storage_ok_set_error storage_ok_insert)

lemma sorted_wrt_map_filter:
  "sorted_wrt R (map f xs) \<Longrightarrow> sorted_wrt R (map f (filter P xs))"
  by (induction xs) auto

lemma storage_ok_delete:
  "storage_ok st \<Longrightarrow> storage_ok (snd (storage_delete_conversation env user_a user_b st))"
  by (auto simp: storage_delete_conversation_def set_error_def storage_ok_def
      sorted_wrt_map_filter list_all_iff)

lemma storage_ok_fetch:
  "storage_ok st \<Longrightarrow> storage_ok (snd (snd (storage_fetch_conversation env user_a user_b cb ctx st)))"
  by (simp add: storage_fetch_conversation_def storage_ok_set_error)

lemma reachable_storage_ok: "reachable_storage st \<Longrightarrow> storage_ok st"
  by (induction rule: reachable_storage.induct)
    (simp_all add: storage_ok_init storage_ok_store storage_ok_delete storage_ok_fetch)

lemma fetch_loop_collect: "fetch_loop collect rs acc = acc @ map row_triple rs"
  by (induction rs arbitrary: acc) (simp_all add: collect_def row_triple_def)

lemma fetched_eq:
  "fetched env user_a user_b st =
     (if prepare_ok env then (0, map row_triple (stepped_rows env user_a user_b st)) else (-1, []))"
  by (simp add: fetched_def storage_fetch_conversation_def fetch_loop_collect)

lemma in_conversation_commute: "in_conversation user_b user_a = in_conversation user_a user_b"
  by (auto simp: in_conversation_def fun_eq_iff)

lemma stepped_rows_commute:
  "stepped_rows env user_b user_a st = stepped_rows env user_a user_b st"
proof -
  have "in_conversation user_b user_a = in_conversation user_a user_b"
    by (rule in_conversation_commute)
  then show ?thesis
    by (simp only: stepped_rows_def select_conversation_def)
qed



lemma fresh_id_filter:
  assumes "storage_ok st"
  shows "filter (\<lambda>r. col_id r = Suc (col_seq st)) (rows st) = []"
proof -
  from assms have "\<forall>r \<in> set (rows st). col_id r \<noteq> Suc (col_seq st)"
    by (fastforce simp: storage_ok_def list_all_iff)
  then show ?thesis by (simp add: filter_empty_conv)
qed

lemma select_new_row:
  assumes "storage_ok st"
  shows "filter (\<lambda>r. col_id r = Suc (col_seq st))
           (select_conversation user_a user_b (insert_message ts user_a user_b body st)) =
         [\<lparr>col_id = Suc (col_seq st), col_sender = user_a, col_receiver = user_b,
           col_body = body, col_created_at = ts\<rparr>]"
proof -
  have "filter (\<lambda>r. col_id r = Suc (col_seq st)) (filter (in_conversation user_a user_b) (rows st)) = []"
    using fresh_id_filter[OF assms] by (simp add: filter_empty_conv)
  then show ?thesis
    by (simp add: select_conversation_def insert_message_def filter_sort in_conversation_def)
qed

lemma select_after_delete:
  "select_conversation user_a user_b
     (st\<lparr>rows := filter (\<lambda>r. \<not> in_conversation user_a user_b r) (rows st)\<rparr>) = []"
  by (simp add: select_conversation_def)

text \<open>
  Claim C5 (history round trip). After an append for the pair \<open>(A, B)\<close> has succeeded, a
  fetch of \<open>(A, B)\<close> that SQLite lets run to its end holds the new record exactly once:
  the rows of the result with its rowid are that one row. A fetch of \<open>(B, A)\<close> gives the
  same rows, and the callback receives the record's timestamp, sender and body. After a
  successful delete of \<open>(A, B)\<close>, a fetch of the pair in either direction returns \<open>0\<close> and
  no row at all.
\<close>

theorem history_round_trip:
  assumes "reachable_storage st"
    and "storage_store_message env user_a user_b body st = (0, st1)"
    and "prepare_ok env1" and "row_limit env1 = None"
    and "storage_delete_conversation env2 user_a user_b st1 = (0, st2)"
    and "prepare_ok env3"
  shows "filter (\<lambda>r. col_id r = Suc (col_seq st)) (stepped_rows env1 user_a user_b st1) =
           [\<lparr>col_id = Suc (col_seq st), col_sender = user_a, col_receiver = user_b,
             col_body = body, col_created_at = now env\<rparr>] \<and>
         stepped_rows env1 user_b user_a st1 = stepped_rows env1 user_a user_b st1 \<and>
         fetched env1 user_a user_b st1 = (0, map row_triple (stepped_rows env1 user_a user_b st1)) \<and>
         fetched env1 user_b user_a st1 = fetched env1 user_a user_b st1 \<and>
         (now env, user_a, body) \<in> set (snd (fetched env1 user_a user_b st1)) \<and>
         fetched env3 user_a user_b st2 = (0, []) \<and>
         fetched env3 user_b user_a st2 = (0, [])"
proof -
  let ?new = "\<lparr>col_id = Suc (col_seq st), col_sender = user_a, col_receiver = user_b,
               col_body = body, col_created_at = now env\<rparr>"
  have ok: "storage_ok st" using assms(1) by (rule reachable_storage_ok)
  from assms(2) have st1: "st1 = insert_message (now env) user_a user_b body st"
    by (simp add: storage_store_message_def split: if_splits)
  from assms(5) have st2: "st2 = st1\<lparr>rows := filter (\<lambda>r. \<not> in_conversation user_a user_b r) (rows st1)\<rparr>"
    by (simp add: storage_delete_conversation_def split: if_splits)
  have once: "filter (\<lambda>r. col_id r = Suc (col_seq st)) (stepped_rows env1 user_a user_b st1) = [?new]"
    using select_new_row[OF ok] assms(4) by (simp add: stepped_rows_def st1)
  have sym: "stepped_rows env1 user_b user_a st1 = stepped_rows env1 user_a user_b st1"
    by (rule stepped_rows_commute)
  have f1: "fetched env1 user_a user_b st1 = (0, map row_triple (stepped_rows env1 user_a user_b st1))"
    using assms(3) by (simp add: fetched_eq)
  have f2: "fetched env1 user_b user_a st1 = fetched env1 user_a user_b st1"
    by (simp add: fetched_eq sym)
  have "?new \<in> set (filter (\<lambda>r. col_id r = Suc (col_seq st)) (stepped_rows env1 user_a user_b st1))"
    by (simp add: once)
  then have "?new \<in> set (stepped_rows env1 user_a user_b st1)" by simp
  then have "row_triple ?new \<in> set (map row_triple (stepped_rows env1 user_a user_b st1))"
    by simp
  then have mem: "(now env, user_a, body) \<in> set (snd (fetched env1 user_a user_b st1))"
    by (simp add: f1 row_triple_def)
  have gone: "stepped_rows env3 user_a user_b st2 = []"
    by (simp add: stepped_rows_def st2 select_after_delete split: option.split)
  have g1: "fetched env3 user_a user_b st2 = (0, [])"
    using assms(6) gone by (simp add: fetched_eq)
  have "stepped_rows env3 user_b user_a st2 = stepped_rows env3 user_a user_b st2"
    by (rule stepped_rows_commute)
  then have g2: "fetched env3 user_b user_a st2 = (0, [])"
    using assms(6) gone by (simp add: fetched_eq)
  from once sym f1 f2 mem g1 g2 show ?thesis by blast
qed

theorem history_round_trip_witness:
  "fetched (env_at []) ''bob'' ''alice''
      (snd (storage_store_message (env_at ''2024-01-01 00:00:05'') ''alice'' ''bob'' ''Hello'' storage_init))
     = (0, [(''2024-01-01 00:00:05'', ''alice'', ''Hello'')]) \<and>
   fetched (env_at []) ''alice'' ''bob''
      (snd (storage_delete_conversation (env_at []) ''alice'' ''bob''
        (snd (storage_store_message (env_at ''2024-01-01 00:00:05'') ''alice'' ''bob'' ''Hello'' storage_init))))
     = (0, [])"
proof -
  let ?env = "env_at ''2024-01-01 00:00:05''"
  let ?st1 = "snd (storage_store_message ?env ''alice'' ''bob'' ''Hello'' storage_init)"
  let ?st2 = "snd (storage_delete_conversation (env_at []) ''alice'' ''bob'' ?st1)"
  have a: "storage_store_message ?env ''alice'' ''bob'' ''Hello'' storage_init = (0, ?st1)"
    by (simp add: storage_store_message_def env_at_def)
  have b: "prepare_ok (env_at [])" and c: "row_limit (env_at []) = None"
    by (simp_all add: env_at_def)
  have d: "storage_delete_conversation (env_at []) ''alice'' ''bob'' ?st1 = (0, ?st2)"
    by (simp add: storage_delete_conversation_def env_at_def)
  note rt = history_round_trip[OF reachable_storage.init a b c d b]
  from rt have "fetched (env_at []) ''alice'' ''bob'' ?st2 = (0, [])" by blast
  moreover have "fetched (env_at []) ''bob'' ''alice'' ?st1 = (0, [(''2024-01-01 00:00:05'', ''alice'', ''Hello'')])"
    by (simp add: fetched_def storage_fetch_conversation_def env_at_def storage_store_message_def
     insert_message_def storage_init_def stepped_rows_def select_conversation_def in_conversation_def collect_def)
  ultimately show ?thesis by simp
qed



section \<open>Properties of the sessions and of the worker\<close>

lemma emit_simps [simp]:
  "mem (emit ev s) = mem s"
  "clients_head (emit ev s) = clients_head s"
  "server_running (emit ev s) = server_running s"
  "store (emit ev s) = store s"
  "trace (emit ev s) = trace s @ [ev]"
  by (simp_all add: emit_def)

lemma send_formatted_simps [simp]:
  "mem (send_formatted session text s) = mem s"
  "clients_head (send_formatted session text s) = clients_head s"
  "server_running (send_formatted session text s) = server_running s"
  "store (send_formatted session text s) = store s"
  "trace (send_formatted session text s) =
     trace s @ [Lock_send session, Send (socket_fd (mem s session)) (frame text), Unlock_send session]"
  by (simp_all add: send_formatted_def)

lemma frame_short: "length text < 2047 \<Longrightarrow> frame text = text @ [LF]"
  by (simp add: frame_def)

lemma find_loop_Some:
  "find_loop m uname ps = Some p \<Longrightarrow>
     p \<in> set ps \<and> authenticated (m p) \<and> strncmp_eq (username (m p)) uname MAX_USERNAME"
  by (induction ps) (auto split: if_splits)

lemma find_loop_None:
  "find_loop m uname ps = None \<longleftrightarrow>
     (\<forall>p \<in> set ps. \<not> (authenticated (m p) \<and> strncmp_eq (username (m p)) uname MAX_USERNAME))"
  by (induction ps) auto

lemma strncmp_eq_refl: "strncmp_eq a a n"
  by (simp add: strncmp_eq_def)

lemma strncmp_eq_short:
  "length a < n \<Longrightarrow> NUL \<notin> set b \<Longrightarrow> strncmp_eq a b n \<longleftrightarrow> a = b"
proof
  assume la: "length a < n" and nb: "NUL \<notin> set b" and eq: "strncmp_eq a b n"
  from eq la have e: "a @ [NUL] = take n (b @ [NUL])" by (simp add: strncmp_eq_def)
  show "a = b"
  proof (cases "n \<le> length b")
    case True
    with e have "a @ [NUL] = take n b" by simp
    then have "NUL \<in> set (take n b)" by (metis in_set_conv_decomp)
    then have "NUL \<in> set b" by (rule in_set_takeD)
    with nb show ?thesis by simp
  next
    case False
    with e have "a @ [NUL] = b @ [NUL]" by simp
    then show ?thesis by simp
  qed
next
  assume "a = b" then show "strncmp_eq a b n" by (simp add: strncmp_eq_def)
qed

lemma trim_loop_prefix: "n \<le> length u \<Longrightarrow> trim_loop (u @ ws) n = trim_loop u n"
  by (induction n) (auto simp: nth_append)

lemma trim_loop_trailing:
  "list_all is_trimmed ws \<Longrightarrow> trim_loop (u @ ws) (length u + length ws) = trim_loop (u @ ws) (length u)"
proof (induction ws rule: rev_induct)
  case Nil
  then show ?case by simp
next
  case (snoc w ws)
  have "trim_loop (u @ ws @ [w]) (length u + length (ws @ [w])) =
        trim_loop (u @ ws @ [w]) (Suc (length u + length ws))" by simp
  also have "\<dots> = trim_loop (u @ ws @ [w]) (length u + length ws)"
    using snoc.prems by (simp add: nth_append)
  also have "\<dots> = trim_loop ((u @ ws) @ [w]) (length (u @ ws))" by simp
  also have "\<dots> = trim_loop (u @ ws) (length (u @ ws))"
    by (rule trim_loop_prefix) simp
  also have "\<dots> = trim_loop (u @ ws) (length u)"
    using snoc by simp
  also have "\<dots> = trim_loop u (length u)"
    by (rule trim_loop_prefix) simp
  also have "\<dots> = trim_loop (u @ ws @ [w]) (length u)"
    by (rule trim_loop_prefix[symmetric]) simp
  finally show ?case .
qed

lemma trim_loop_last:
  "u \<noteq> [] \<Longrightarrow> \<not> is_trimmed (last u) \<Longrightarrow> trim_loop u (length u) = u"
  by (cases u rule: rev_cases) (auto simp: nth_append)

lemma trim_newline_trailing:
  assumes "u \<noteq> []" and "\<not> is_trimmed (last u)" and "list_all is_trimmed ws"
  shows "trim_newline (u @ ws) = u"
proof -
  have "trim_newline (u @ ws) = trim_loop (u @ ws) (length u + length ws)"
    using assms(1) by (simp add: trim_newline_def)
  also have "\<dots> = trim_loop (u @ ws) (length u)"
    using assms(3) by (rule trim_loop_trailing)
  also have "\<dots> = trim_loop u (length u)"
    by (rule trim_loop_prefix) simp
  also have "\<dots> = u" using assms(1,2) by (rule trim_loop_last)
  finally show ?thesis .
qed

lemma find_loop_update:
  assumes "find_loop m uname ps = None" and "session \<in> set ps"
    and "authenticated c" and "strncmp_eq (username c) uname MAX_USERNAME"
  shows "find_loop (m(session := c)) uname ps = Some session"
  using assms by (induction ps) (auto split: if_splits)

lemma worker_auth_accept:
  assumes "strncmp_eq line ''AUTH '' 5"
    and "trim_newline (drop 5 line) = uname"
    and "0 < length uname" and "length uname < MAX_USERNAME"
    and "username_available uname s"
  shows "worker_auth session line s =
     send_formatted session (''OK Authenticated as '' @ uname)
       (emit Unlock_clients
         ((emit Lock_clients s)\<lparr>mem := (mem s)(session :=
              (mem s session)\<lparr>username := uname, authenticated := True\<rparr>)\<rparr>))"
  using assms
  by (simp add: worker_auth_def Let_def username_available_def find_client_by_name_def strncpy_def
      emit_def)

lemma strncmp_eq_prefix: "length p = n \<Longrightarrow> strncmp_eq (p @ x) p n"
  by (simp add: strncmp_eq_def)

text \<open>
  Claim C10 (interior spaces of a username). \<^verbatim>\<open>AUTH\<close> removes only the line feeds,
  carriage returns and spaces at the end of the name. For a line \<^verbatim>\<open>AUTH a b\<close>, with any
  such bytes after it, whose name \<^verbatim>\<open>a b\<close> is shorter than \<^verbatim>\<open>MAX_USERNAME\<close> and free,
  an unauthenticated session of the client list is authenticated under the name
  \<^verbatim>\<open>a b\<close> with its space, is found under that name afterwards, and is sent
  \<^verbatim>\<open>OK Authenticated as a b\<close> and nothing else.
\<close>

theorem auth_keeps_interior_spaces:
  assumes "\<not> authenticated (mem s session)"
    and "session \<in> set (clients_head s)"
    and "b \<noteq> []" and "\<not> is_trimmed (last b)" and "list_all is_trimmed ws"
    and "length (a @ [SP] @ b) < MAX_USERNAME"
    and "username_available (a @ [SP] @ b) s"
  shows "\<exists>s'. worker_command env session (''AUTH '' @ a @ [SP] @ b @ ws) s = (Continue, s') \<and>
           authenticated (mem s' session) \<and>
           username (mem s' session) = a @ [SP] @ b \<and>
           find_client_by_name (a @ [SP] @ b) s' = Some session \<and>
           sends (drop (length (trace s)) (trace s')) =
             [(socket_fd (mem s session), ''OK Authenticated as '' @ a @ [SP] @ b @ [LF])]"
proof -
  let ?u = "a @ [SP] @ b"
  let ?line = "''AUTH '' @ a @ [SP] @ b @ ws"
  let ?s' = "send_formatted session (''OK Authenticated as '' @ ?u)
       (emit Unlock_clients
         ((emit Lock_clients s)\<lparr>mem := (mem s)(session :=
              (mem s session)\<lparr>username := ?u, authenticated := True\<rparr>)\<rparr>))"
  have pre: "strncmp_eq ?line ''AUTH '' 5"
    using strncmp_eq_prefix[of "''AUTH ''" 5 "a @ [SP] @ b @ ws"] by simp
  have "trim_newline (?u @ ws) = ?u"
    using assms(3,4,5) by (intro trim_newline_trailing) simp_all
  then have trim: "trim_newline (drop 5 ?line) = ?u" by simp
  have len: "0 < length ?u" by simp
  have auth: "worker_auth session ?line s = ?s'"
    using pre trim len assms(6,7) by (rule worker_auth_accept)
  have cmd: "worker_command env session ?line s = (Continue, ?s')"
    using assms(1) auth by (simp add: worker_command_def)
  have none: "find_loop (mem s) ?u (clients_head s) = None"
    using assms(7) by (simp add: username_available_def find_client_by_name_def)
  have found: "find_client_by_name ?u ?s' = Some session"
    unfolding find_client_by_name_def
    using find_loop_update[OF none assms(2), of "(mem s session)\<lparr>username := ?u, authenticated := True\<rparr>"]
    by (simp add: strncmp_eq_refl)
  have "length (''OK Authenticated as '' @ ?u) < 2047"
    using assms(6) by (simp add: MAX_USERNAME_def)
  then have fr: "frame (''OK Authenticated as '' @ ?u) = (''OK Authenticated as '' @ ?u) @ [LF]"
    by (rule frame_short)
  have out: "sends (drop (length (trace s)) (trace ?s')) =
             [(socket_fd (mem s session), ''OK Authenticated as '' @ ?u @ [LF])]"
    using fr by simp
  from cmd found out show ?thesis by simp
qed

theorem auth_keeps_interior_spaces_witness:
  "fst (worker_command (env_at []) 1 ''AUTH a b  '' (accept_client (Some 1) True 4 server_init)) = Continue \<and>
   username (mem (snd (worker_command (env_at []) 1 ''AUTH a b  ''
      (accept_client (Some 1) True 4 server_init))) 1) = ''a b'' \<and>
   authenticated (mem (snd (worker_command (env_at []) 1 ''AUTH a b  ''
      (accept_client (Some 1) True 4 server_init))) 1)"
proof -
  let ?s = "accept_client (Some 1) True 4 server_init"
  have 1: "\<not> authenticated (mem ?s 1)"
    by (simp add: accept_client_def add_client_def server_init_def)
  have 2: "1 \<in> set (clients_head ?s)"
    by (simp add: accept_client_def add_client_def server_init_def)
  have 3: "''b'' \<noteq> []" and 4: "\<not> is_trimmed (last ''b'')" and 5: "list_all is_trimmed ''  ''"
    by (simp_all add: is_trimmed_def LF_def CR_def SP_def)
  have 6: "length (''a'' @ [SP] @ ''b'') < MAX_USERNAME"
    by (simp add: MAX_USERNAME_def)
  have 7: "username_available (''a'' @ [SP] @ ''b'') ?s"
    by (simp add: username_available_def find_client_by_name_def accept_client_def add_client_def
        server_init_def)
  from auth_keeps_interior_spaces[OF 1 2 3 4 5 6 7, of "env_at []"]
  obtain s' where "worker_command (env_at []) 1 (''AUTH '' @ ''a'' @ [SP] @ ''b'' @ ''  '') ?s = (Continue, s')"
    and "authenticated (mem s' 1)" and "username (mem s' 1) = ''a'' @ [SP] @ ''b''"
    by blast
  then show ?thesis by (simp add: SP_def)
qed

lemma two_clients_simps:
  "clients_head two_clients = [20, 10]"
  "mem two_clients 10 = \<lparr>socket_fd = 4, username = [], authenticated = False\<rparr>"
  "mem two_clients 20 = \<lparr>socket_fd = 5, username = [], authenticated = False\<rparr>"
  "server_running two_clients"
  "store two_clients = storage_init"
  by (simp_all add: two_clients_def accept_client_def add_client_def server_init_def)

lemma alice_bob_simps:
  "clients_head alice_bob = [20, 10]"
  "mem alice_bob 10 = \<lparr>socket_fd = 4, username = ''alice'', authenticated = True\<rparr>"
  "mem alice_bob 20 = \<lparr>socket_fd = 5, username = ''bob'', authenticated = True\<rparr>"
  "server_running alice_bob"
  "store alice_bob = storage_init"
  by (simp_all add: alice_bob_def worker_command_def worker_auth_def two_clients_simps
      strncmp_eq_def trim_newline_def is_trimmed_def LF_def CR_def SP_def NUL_def MAX_USERNAME_def
      username_available_def find_client_by_name_def strncpy_def Let_def)

lemma worker_command_quit:
  "worker_command env session ''QUIT'' s =
     (if authenticated (mem s session) then (Break, send_formatted session ''BYE'' s)
      else (Continue, send_formatted session ''ERROR Authenticate first using AUTH <username>'' s))"
  by (simp add: worker_command_def worker_auth_def strncmp_eq_def)

lemma read_line_loop_line:
  "LF \<notin> set line \<Longrightarrow> CR \<notin> set line \<Longrightarrow> length buffer + length line < max_len - 1 \<Longrightarrow>
     read_line_loop e max_len buffer (line @ [LF] @ rest) =
       (int (length buffer + length line), buffer @ line, rest)"
  by (induction line arbitrary: buffer) (auto simp: CR_neq_LF)

lemma read_line_line:
  "LF \<notin> set line \<Longrightarrow> CR \<notin> set line \<Longrightarrow> length line < max_len - 1 \<Longrightarrow>
     read_line e max_len (line @ [LF] @ rest) = (int (length line), line, rest)"
  using read_line_loop_line[of line "[]" max_len e rest] by (simp add: read_line_def)

lemma remove_client_simps [simp]:
  "clients_head (remove_client session s) = remove1 session (clients_head s)"
  "mem (remove_client session s) = mem s"
  "trace (remove_client session s) = trace s @ [Lock_clients, Unlock_clients]"
  by (simp_all add: remove_client_def)

lemma client_worker_exit_unlinks:
  "distinct (clients_head s) \<Longrightarrow> session \<notin> set (clients_head (client_worker_exit session s))"
  by (simp add: client_worker_exit_def Let_def)

text \<open>
  Claim C4 as stated fails: a \<^verbatim>\<open>QUIT\<close> from a session that has not authenticated is
  answered with an error, and the loop goes on.
\<close>

theorem quit_before_auth_counterexample:
  "worker_command (env_at []) 10 ''QUIT'' two_clients =
     (Continue, send_formatted 10 ''ERROR Authenticate first using AUTH <username>'' two_clients) \<and>
   sends (trace (send_formatted 10 ''ERROR Authenticate first using AUTH <username>'' two_clients)) =
     [(4, ''ERROR Authenticate first using AUTH <username>'' @ [LF])]"
  by (simp add: worker_command_quit two_clients_simps frame_def)
    (simp add: two_clients_def accept_client_def add_client_def server_init_def)

text \<open>
  Claim C4, amended. \<^verbatim>\<open>QUIT\<close> is accepted from an authenticated session: the server sends
  \<^verbatim>\<open>BYE\<close>, the loop ends there, whatever follows on the socket, and the exit of the worker
  unlinks the session from the client list. From a session that has not authenticated,
  \<^verbatim>\<open>QUIT\<close> is answered with \<^verbatim>\<open>ERROR Authenticate first using AUTH <username>\<close> and the
  loop goes on.
\<close>

theorem quit_accepted_when_authenticated:
  "(authenticated (mem s session) \<longrightarrow>
      worker_command env session ''QUIT'' s = (Break, send_formatted session ''BYE'' s) \<and>
      (server_running s \<longrightarrow>
         client_worker_loop envs i session e (''QUIT'' @ [LF] @ rest) s = send_formatted session ''BYE'' s) \<and>
      (distinct (clients_head s) \<longrightarrow>
         session \<notin> set (clients_head (client_worker_exit session (send_formatted session ''BYE'' s))))) \<and>
   (\<not> authenticated (mem s session) \<longrightarrow>
      worker_command env session ''QUIT'' s =
        (Continue, send_formatted session ''ERROR Authenticate first using AUTH <username>'' s))"
proof -
  have rl: "read_line e 2048 (''QUIT'' @ [LF] @ rest) = (4, ''QUIT'', rest)"
    using read_line_line[of "''QUIT''" 2048 e rest] by (simp add: LF_def CR_def)
  have c: "cstr ''QUIT'' = ''QUIT''" by (simp add: cstr_def NUL_def)
  have loop: "client_worker_loop envs i session e (''QUIT'' @ [LF] @ rest) s = send_formatted session ''BYE'' s"
    if "authenticated (mem s session)" "server_running s"
    using that rl by (subst client_worker_loop.simps) (simp add: c worker_command_quit)
  show ?thesis
    using loop by (simp add: worker_command_quit client_worker_exit_unlinks)
qed

theorem quit_accepted_when_authenticated_witness:
  "client_worker (\<lambda>i. env_at []) 20 Peer_closed (''QUIT'' @ [LF] @ ''USERS'' @ [LF])
      (alice_bob\<lparr>trace := []\<rparr>) =
   client_worker_exit 20
     (send_formatted 20 ''BYE'' (send_formatted 20 ''WELCOME Provide AUTH <username>'' (alice_bob\<lparr>trace := []\<rparr>))) \<and>
   clients_head (client_worker (\<lambda>i. env_at []) 20 Peer_closed (''QUIT'' @ [LF] @ ''USERS'' @ [LF])
      (alice_bob\<lparr>trace := []\<rparr>)) = [10] \<and>
   sends (trace (client_worker (\<lambda>i. env_at []) 20 Peer_closed (''QUIT'' @ [LF] @ ''USERS'' @ [LF])
      (alice_bob\<lparr>trace := []\<rparr>))) = [(5, ''WELCOME Provide AUTH <username>'' @ [LF]), (5, ''BYE'' @ [LF])]"
proof -
  let ?s = "send_formatted 20 ''WELCOME Provide AUTH <username>'' (alice_bob\<lparr>trace := []\<rparr>)"
  have a: "authenticated (mem ?s 20)" and r: "server_running ?s"
    by (simp_all add: alice_bob_simps)
  from quit_accepted_when_authenticated[of ?s 20 "env_at []" "\<lambda>i. env_at []" 0 Peer_closed "''USERS'' @ [LF]"] a r
  have "client_worker_loop (\<lambda>i. env_at []) 0 20 Peer_closed (''QUIT'' @ [LF] @ ''USERS'' @ [LF]) ?s
          = send_formatted 20 ''BYE'' ?s"
    by blast
  then have w: "client_worker (\<lambda>i. env_at []) 20 Peer_closed (''QUIT'' @ [LF] @ ''USERS'' @ [LF])
      (alice_bob\<lparr>trace := []\<rparr>) = client_worker_exit 20 (send_formatted 20 ''BYE'' ?s)"
    by (simp add: client_worker_def)
  show ?thesis unfolding w
    by (simp add: client_worker_exit_def alice_bob_simps frame_def Let_def)
qed

lemma users_loop_simps [simp]:
  "mem (users_loop session ps s) = mem s"
  "clients_head (users_loop session ps s) = clients_head s"
  "store (users_loop session ps s) = store s"
  "server_running (users_loop session ps s) = server_running s"
  by (induction ps arbitrary: s) simp_all

lemma broadcast_loop_simps [simp]:
  "mem (broadcast_loop ps s) = mem s"
  "clients_head (broadcast_loop ps s) = clients_head s"
  "store (broadcast_loop ps s) = store s"
  "server_running (broadcast_loop ps s) = server_running s"
  by (induction ps arbitrary: s) simp_all

lemma notify_user_list_simps [simp]:
  "mem (notify_user_list session s) = mem s"
  "clients_head (notify_user_list session s) = clients_head s"
  "store (notify_user_list session s) = store s"
  by (simp_all add: notify_user_list_def)

lemma find_client_by_name_emit [simp]:
  "find_client_by_name uname (emit ev s) = find_client_by_name uname s"
  by (simp add: find_client_by_name_def)

lemma find_client_by_name_store [simp]:
  "find_client_by_name uname (s\<lparr>store := st\<rparr>) = find_client_by_name uname s"
  by (simp add: find_client_by_name_def)

lemma deliver_message_simps [simp]:
  "mem (deliver_message env sender receiver body s) = mem s"
  "clients_head (deliver_message env sender receiver body s) = clients_head s"
  "server_running (deliver_message env sender receiver body s) = server_running s"
  "store (deliver_message env sender receiver body s) =
     snd (storage_store_message env sender receiver body (store s))"
  by (simp_all add: deliver_message_def Let_def split: prod.split option.split)

lemma fetch_loop_history_emit [simp]:
  "mem (snd (fetch_loop history_emit rs ctx)) = mem (snd ctx)"
  "clients_head (snd (fetch_loop history_emit rs ctx)) = clients_head (snd ctx)"
  "store (snd (fetch_loop history_emit rs ctx)) = store (snd ctx)"
  by (induction rs arbitrary: ctx) (simp_all add: history_emit_def split: prod.split)

lemma worker_auth_clients_head [simp]:
  "clients_head (worker_auth session line s) = clients_head s"
  by (simp add: worker_auth_def Let_def)

lemma worker_send_simps [simp]:
  "clients_head (worker_send env session line s) = clients_head s"
  "mem (worker_send env session line s) = mem s"
  by (simp_all add: worker_send_def Let_def)

lemma fetch_loop_history_emit_eq:
  "fetch_loop history_emit rs (h, s) = (h', s') \<Longrightarrow>
     mem s' = mem s \<and> clients_head s' = clients_head s \<and> store s' = store s"
  using fetch_loop_history_emit[of rs "(h, s)"] by simp

lemma worker_get_simps [simp]:
  "clients_head (worker_get env session line s) = clients_head s"
  "mem (worker_get env session line s) = mem s"
  by (auto simp: worker_get_def storage_fetch_conversation_def Let_def split: prod.split
      dest!: fetch_loop_history_emit_eq)

lemma worker_delete_simps [simp]:
  "clients_head (worker_delete env session line s) = clients_head s"
  "mem (worker_delete env session line s) = mem s"
  by (simp_all add: worker_delete_def Let_def split: prod.split)

lemma worker_command_clients_head:
  "clients_head (snd (worker_command env session line s)) = clients_head s"
  by (simp add: worker_command_def)

lemma worker_command_mem:
  "authenticated (mem s session) \<Longrightarrow> mem (snd (worker_command env session line s)) = mem s"
  by (simp add: worker_command_def)

lemma worker_auth_flag:
  "\<not> authenticated (mem s session) \<Longrightarrow>
   authenticated (mem (worker_auth session line s) session) =
     (strncmp_eq line ''AUTH '' 5 \<and> 0 < length (trim_newline (drop 5 line)) \<and>
      length (trim_newline (drop 5 line)) < MAX_USERNAME \<and>
      username_available (trim_newline (drop 5 line)) s)"
  by (auto simp: worker_auth_def Let_def username_available_def)

lemma accept_client_links:
  "clients_head (accept_client (Some session) True client_fd s) = session # clients_head s"
  "\<not> authenticated (mem (accept_client (Some session) True client_fd s) session)"
  by (simp_all add: accept_client_def add_client_def Let_def)

text \<open>
  Claim C2 as stated fails: a session is linked into the client list as soon as its
  connection is accepted, with its flag down.
\<close>

theorem listed_before_auth_counterexample:
  "10 \<in> set (clients_head (accept_client (Some 10) True 4 server_init)) \<and>
   \<not> authenticated (mem (accept_client (Some 10) True 4 server_init) 10)"
  by (simp add: accept_client_links)

text \<open>
  Claim C2, amended. The accept loop links every new session into the client list with its
  flag down, and no command links or unlinks a session. Lookup by name returns only
  sessions of the list whose flag is up. The flag of an unauthenticated session is up after
  a command exactly when that command is an \<^verbatim>\<open>AUTH\<close> with a name of valid length that was
  free; the commands of an authenticated session leave all sessions as they are.
\<close>

theorem registry_sees_authenticated_only:
  "clients_head (accept_client (Some session) True client_fd s) = session # clients_head s \<and>
   \<not> authenticated (mem (accept_client (Some session) True client_fd s) session) \<and>
   (find_client_by_name uname s = Some p \<longrightarrow> p \<in> set (clients_head s) \<and> authenticated (mem s p)) \<and>
   clients_head (snd (worker_command env session line s)) = clients_head s \<and>
   (\<not> authenticated (mem s session) \<longrightarrow>
      authenticated (mem (snd (worker_command env session line s)) session) =
        (strncmp_eq line ''AUTH '' 5 \<and> 0 < length (trim_newline (drop 5 line)) \<and>
         length (trim_newline (drop 5 line)) < MAX_USERNAME \<and>
         username_available (trim_newline (drop 5 line)) s)) \<and>
   (authenticated (mem s session) \<longrightarrow> mem (snd (worker_command env session line s)) = mem s)"
proof -
  have look: "find_client_by_name uname s = Some p \<longrightarrow> p \<in> set (clients_head s) \<and> authenticated (mem s p)"
    using find_loop_Some[of "mem s" uname "clients_head s" p]
    by (simp add: find_client_by_name_def)
  have flag: "\<not> authenticated (mem s session) \<longrightarrow>
      authenticated (mem (snd (worker_command env session line s)) session) =
        (strncmp_eq line ''AUTH '' 5 \<and> 0 < length (trim_newline (drop 5 line)) \<and>
         length (trim_newline (drop 5 line)) < MAX_USERNAME \<and>
         username_available (trim_newline (drop 5 line)) s)"
    using worker_auth_flag[of s session line] by (simp add: worker_command_def)
  from look flag show ?thesis
    by (simp add: accept_client_links worker_command_clients_head worker_command_mem)
qed

theorem registry_sees_authenticated_only_witness:
  "find_client_by_name ''alice'' two_clients = None \<and>
   find_client_by_name ''alice'' (snd (worker_command (env_at []) 10 ''AUTH alice'' two_clients)) = Some 10 \<and>
   clients_head (snd (worker_command (env_at []) 10 ''AUTH alice'' two_clients)) = [20, 10] \<and>
   authenticated (mem (snd (worker_command (env_at []) 10 ''AUTH alice'' two_clients)) 10)"
proof -
  let ?s = "snd (worker_command (env_at []) 10 ''AUTH alice'' two_clients)"
  note t = registry_sees_authenticated_only[of 10 4 two_clients "''alice''" 10 "env_at []" "''AUTH alice''"]
  have free: "find_client_by_name ''alice'' two_clients = None"
    by (simp add: find_client_by_name_def two_clients_simps)
  have un: "\<not> authenticated (mem two_clients 10)" by (simp add: two_clients_simps)
  have ok: "strncmp_eq ''AUTH alice'' ''AUTH '' 5 \<and> 0 < length (trim_newline (drop 5 ''AUTH alice'')) \<and>
         length (trim_newline (drop 5 ''AUTH alice'')) < MAX_USERNAME \<and>
         username_available (trim_newline (drop 5 ''AUTH alice'')) two_clients"
    by (simp add: strncmp_eq_def trim_newline_def is_trimmed_def LF_def CR_def SP_def MAX_USERNAME_def
        username_available_def find_client_by_name_def two_clients_simps)
  from t un ok have flag: "authenticated (mem ?s 10)" by blast
  from t have links: "clients_head ?s = [20, 10]" by (simp add: two_clients_simps)
  have found: "find_client_by_name ''alice'' ?s = Some 10"
    by (simp add: worker_command_def worker_auth_def two_clients_simps find_client_by_name_def
      strncmp_eq_def trim_newline_def is_trimmed_def LF_def CR_def SP_def NUL_def MAX_USERNAME_def
      username_available_def strncpy_def Let_def)
  from free found links flag show ?thesis by simp
qed

lemma worker_send_parsed:
  assumes "SP \<notin> set target" and "message \<noteq> []"
  shows "worker_send env session (''SEND '' @ target @ [SP] @ message) s =
     send_formatted session ''OK Message queued''
       (deliver_message env (username (mem s session)) target message s)"
proof -
  have tw: "takeWhile (\<lambda>c. c \<noteq> SP) (target @ SP # message) = target"
    using assms(1) by (simp add: takeWhile_append)
  have dr: "drop (Suc (length target)) (target @ SP # message) = message"
    by simp
  have "SP \<in> set (target @ SP # message)" by simp
  then show ?thesis
    using tw dr assms(2) by (simp add: worker_send_def Let_def)
qed

lemma worker_command_send:
  assumes "authenticated (mem s session)" and "SP \<notin> set target" and "message \<noteq> []"
  shows "worker_command env session (''SEND '' @ target @ [SP] @ message) s =
     (Continue, send_formatted session ''OK Message queued''
       (deliver_message env (username (mem s session)) target message s))"
proof -
  have "strncmp_eq (''SEND '' @ target @ [SP] @ message) ''SEND '' 5"
    using strncmp_eq_prefix[of "''SEND ''" 5 "target @ [SP] @ message"] by simp
  then show ?thesis
    using assms(1) worker_send_parsed[OF assms(2,3)] by (simp add: worker_command_def)
qed

lemma deliver_message_trace:
  "trace (deliver_message env sender receiver body s) =
     trace s @
     (if fst (storage_store_message env sender receiver body (store s)) \<noteq> 0
      then [Stderr (''Failed to persist message from '' @ sender @ '' to '' @ receiver @ '': '' @
                    storage_last_error (snd (storage_store_message env sender receiver body (store s))) @ [LF])]
      else []) @
     [Lock_clients] @
     (case find_client_by_name receiver s of
        None \<Rightarrow> []
      | Some target \<Rightarrow>
          [Lock_send target, Send (socket_fd (mem s target)) (frame (''MESSAGE '' @ sender @ '' '' @ body)),
           Unlock_send target]) @
     [Unlock_clients]"
  by (simp add: deliver_message_def Let_def split: prod.split option.split)

lemma frame_ok_queued: "frame ''OK Message queued'' = ''OK Message queued'' @ [LF]"
  by (simp add: frame_def)







lemma fetched_after_insert:
  assumes "prepare_ok env1" and "row_limit env1 = None"
  shows "(ts, sender, body) \<in> set (snd (fetched env1 sender receiver (insert_message ts sender receiver body st)))"
proof -
  let ?new = "\<lparr>col_id = Suc (col_seq st), col_sender = sender, col_receiver = receiver,
               col_body = body, col_created_at = ts\<rparr>"
  have "?new \<in> set (select_conversation sender receiver (insert_message ts sender receiver body st))"
    by (simp add: select_conversation_def insert_message_def in_conversation_def)
  then have "row_triple ?new \<in> row_triple ` set (stepped_rows env1 sender receiver
       (insert_message ts sender receiver body st))"
    using assms(2) by (simp add: stepped_rows_def)
  then show ?thesis
    using assms(1) by (simp add: fetched_eq row_triple_def)
qed

text \<open>
  Claim C7 (offline durability). A well-formed \<^verbatim>\<open>SEND\<close> from an authenticated session to a
  name that no connected session carries makes the same call of the gateway as any other
  \<^verbatim>\<open>SEND\<close>, so that, the append succeeding, a later fetch of the conversation hands the
  message to its callback. No \<^verbatim>\<open>MESSAGE\<close> line is sent to any socket: the only send is
  \<^verbatim>\<open>OK Message queued\<close> to the sender, and the worker goes on.
\<close>

theorem send_to_offline_user:
  assumes "authenticated (mem s session)" and "SP \<notin> set target" and "message \<noteq> []"
    and "find_client_by_name target s = None"
  shows "\<exists>s'. worker_command env session (''SEND '' @ target @ [SP] @ message) s = (Continue, s') \<and>
     sends (drop (length (trace s)) (trace s')) =
       [(socket_fd (mem s session), ''OK Message queued'' @ [LF])] \<and>
     store s' = snd (storage_store_message env (username (mem s session)) target message (store s)) \<and>
     (prepare_ok env \<and> step_done env \<and> prepare_ok env1 \<and> row_limit env1 = None \<longrightarrow>
        (now env, username (mem s session), message)
          \<in> set (snd (fetched env1 (username (mem s session)) target (store s'))))"
proof -
  let ?s' = "send_formatted session ''OK Message queued''
       (deliver_message env (username (mem s session)) target message s)"
  have cmd: "worker_command env session (''SEND '' @ target @ [SP] @ message) s = (Continue, ?s')"
    using assms(1,2,3) by (rule worker_command_send)
  have out: "sends (drop (length (trace s)) (trace ?s')) =
       [(socket_fd (mem s session), ''OK Message queued'' @ [LF])]"
    using assms(4) by (simp add: deliver_message_trace frame_ok_queued)
  have st: "store ?s' = snd (storage_store_message env (username (mem s session)) target message (store s))"
    by simp
  have later: "prepare_ok env \<and> step_done env \<and> prepare_ok env1 \<and> row_limit env1 = None \<longrightarrow>
        (now env, username (mem s session), message)
          \<in> set (snd (fetched env1 (username (mem s session)) target (store ?s')))"
  proof
    assume ok: "prepare_ok env \<and> step_done env \<and> prepare_ok env1 \<and> row_limit env1 = None"
    then have "store ?s' = insert_message (now env) (username (mem s session)) target message (store s)"
      by (simp add: storage_store_message_def)
    moreover from ok have "prepare_ok env1" and "row_limit env1 = None" by simp_all
    ultimately show "(now env, username (mem s session), message)
          \<in> set (snd (fetched env1 (username (mem s session)) target (store ?s')))"
      by (simp only: fetched_after_insert)
  qed
  show ?thesis
    by (rule exI[of _ ?s']) (intro conjI cmd out st later)
qed

theorem send_to_offline_user_witness:
  "fst (worker_command (env_at ''2024-01-01 00:00:05'') 10 ''SEND carol Hi'' (alice_bob\<lparr>trace := []\<rparr>))
     = Continue \<and>
   sends (trace (snd (worker_command (env_at ''2024-01-01 00:00:05'') 10 ''SEND carol Hi''
       (alice_bob\<lparr>trace := []\<rparr>)))) = [(4, ''OK Message queued'' @ [LF])] \<and>
   (''2024-01-01 00:00:05'', ''alice'', ''Hi'')
     \<in> set (snd (fetched (env_at []) ''alice'' ''carol''
         (store (snd (worker_command (env_at ''2024-01-01 00:00:05'') 10 ''SEND carol Hi''
            (alice_bob\<lparr>trace := []\<rparr>))))))"
proof -
  let ?s = "alice_bob\<lparr>trace := []\<rparr>"
  let ?env = "env_at ''2024-01-01 00:00:05''"
  have a: "authenticated (mem ?s 10)" by (simp add: alice_bob_simps)
  have b: "SP \<notin> set ''carol''" and c: "''Hi'' \<noteq> []" by (simp_all add: SP_def)
  have f: "find_client_by_name ''carol'' ?s = None"
    by (simp add: find_client_by_name_def alice_bob_simps strncmp_eq_def MAX_USERNAME_def NUL_def)
  have e: "prepare_ok ?env \<and> step_done ?env \<and> prepare_ok (env_at []) \<and> row_limit (env_at []) = None"
    by (simp add: env_at_def)
  from send_to_offline_user[OF a b c f, of ?env "env_at []"] e
  obtain s' where cmd: "worker_command ?env 10 (''SEND '' @ ''carol'' @ [SP] @ ''Hi'') ?s = (Continue, s')"
    and out: "sends (drop (length (trace ?s)) (trace s')) = [(socket_fd (mem ?s 10), ''OK Message queued'' @ [LF])]"
    and later: "(now ?env, username (mem ?s 10), ''Hi'')
          \<in> set (snd (fetched (env_at []) (username (mem ?s 10)) ''carol'' (store s')))"
    by blast
  from cmd have cmd': "worker_command ?env 10 ''SEND carol Hi'' ?s = (Continue, s')"
    by (simp add: SP_def)
  show ?thesis
    unfolding cmd' using out later by (simp add: alice_bob_simps env_at_def)
qed

lemma broadcast_loop_trace:
  "trace (broadcast_loop ps s) =
     trace s @ concat (map (\<lambda>p. if authenticated (mem s p)
        then [Lock_send p, Send (socket_fd (mem s p)) (frame ''SHUTDOWN Server shutting down...''),
              Unlock_send p]
        else []) ps)"
  by (induction ps arbitrary: s) (simp_all cong: if_cong)

lemma send_under_lock_chunks:
  "send_under_lock True
     (concat (map (\<lambda>p. if P p then [Lock_send p, Send (fd p) (text p), Unlock_send p] else []) ps) @ evs)
   = ((\<exists>p \<in> set ps. P p) \<or> send_under_lock True evs)"
  by (induction ps) auto

lemma broadcast_under_lock:
  "send_under_lock False (new_events s (broadcast_shutdown_message s)) =
     (\<exists>p \<in> set (clients_head s). authenticated (mem s p))"
  using send_under_lock_chunks[of "\<lambda>p. authenticated (mem s p)" "\<lambda>p. socket_fd (mem s p)"
      "\<lambda>p. frame ''SHUTDOWN Server shutting down...''" "clients_head s" "[Unlock_clients]"]
  by (simp add: new_events_def broadcast_shutdown_message_def broadcast_loop_trace cong: if_cong)

lemma users_loop_trace:
  "trace (users_loop session ps s) =
     trace s @ concat (map (\<lambda>p. if authenticated (mem s p)
        then [Lock_send session,
              Send (socket_fd (mem s session)) (frame (''USER '' @ username (mem s p))),
              Unlock_send session]
        else []) ps)"
  by (induction ps arbitrary: s) (simp_all cong: if_cong)

lemma notify_under_lock:
  "send_under_lock False (new_events s (notify_user_list session s))"
proof -
  obtain evs where "trace (users_loop session (clients_head s)
           (send_formatted session ''USERS_BEGIN'' (emit Lock_clients s))) =
      trace (send_formatted session ''USERS_BEGIN'' (emit Lock_clients s)) @ evs"
    by (simp only: users_loop_trace)
  then show ?thesis
    by (simp add: new_events_def notify_user_list_def)
qed

lemma deliver_under_lock:
  "send_under_lock False (new_events s (deliver_message env sender receiver body s)) =
     (find_client_by_name receiver s \<noteq> None)"
  by (simp add: new_events_def deliver_message_trace split: option.split)

lemma auth_not_under_lock:
  "\<not> send_under_lock False (new_events s (worker_auth session line s))"
  by (simp add: new_events_def worker_auth_def Let_def)

lemma add_remove_not_under_lock:
  "\<not> send_under_lock False (new_events s (add_client session s))"
  "\<not> send_under_lock False (new_events s (remove_client session s))"
  by (simp_all add: new_events_def add_client_def)

text \<open>
  Claim C8 as stated fails: with both users connected, the delivery of a message, the
  user list and the shutdown broadcast each call \<^verbatim>\<open>send\<close> while holding the registry
  lock.
\<close>

theorem send_under_registry_lock_counterexample:
  "new_events alice_bob (deliver_message (env_at []) ''alice'' ''bob'' ''Hello'' alice_bob) =
     [Lock_clients, Lock_send 20, Send 5 (''MESSAGE alice Hello'' @ [LF]), Unlock_send 20, Unlock_clients] \<and>
   send_under_lock False (new_events alice_bob (deliver_message (env_at []) ''alice'' ''bob'' ''Hello'' alice_bob)) \<and>
   send_under_lock False (new_events alice_bob (notify_user_list 10 alice_bob)) \<and>
   send_under_lock False (new_events alice_bob (broadcast_shutdown_message alice_bob))"
proof -
  have f: "find_client_by_name ''bob'' alice_bob = Some 20"
    by (simp add: find_client_by_name_def alice_bob_simps strncmp_eq_def MAX_USERNAME_def NUL_def)
  have "fst (storage_store_message (env_at []) ''alice'' ''bob'' ''Hello'' (store alice_bob)) = 0"
    by (simp add: storage_store_message_def env_at_def)
  then have 1: "new_events alice_bob (deliver_message (env_at []) ''alice'' ''bob'' ''Hello'' alice_bob) =
     [Lock_clients, Lock_send 20, Send 5 (''MESSAGE alice Hello'' @ [LF]), Unlock_send 20, Unlock_clients]"
    by (simp add: new_events_def deliver_message_trace f alice_bob_simps frame_def)
  have 2: "send_under_lock False (new_events alice_bob (deliver_message (env_at []) ''alice'' ''bob'' ''Hello'' alice_bob))"
    by (simp add: deliver_under_lock f)
  have 3: "send_under_lock False (new_events alice_bob (notify_user_list 10 alice_bob))"
    by (rule notify_under_lock)
  have 4: "send_under_lock False (new_events alice_bob (broadcast_shutdown_message alice_bob))"
    by (simp add: broadcast_under_lock alice_bob_simps)
  from 1 2 3 4 show ?thesis by (intro conjI)
qed

lemma locked_sends_chunks:
  "locked_sends True
     (concat (map (\<lambda>p. if P p then [Lock_send (a p), Send (fd p) (text p), Unlock_send (a p)] else []) ps) @ evs)
   = map (\<lambda>p. (fd p, text p)) (filter P ps) @ locked_sends True evs"
  by (induction ps) auto

lemma unlocked_sends_chunks:
  "unlocked_sends True
     (concat (map (\<lambda>p. if P p then [Lock_send (a p), Send (fd p) (text p), Unlock_send (a p)] else []) ps) @ evs)
   = unlocked_sends True evs"
  by (induction ps) auto

lemma sends_guarded_chunks:
  "(\<And>p. fd p = socket_fd (m (a p))) \<Longrightarrow>
   sends_guarded m None
     (concat (map (\<lambda>p. if P p then [Lock_send (a p), Send (fd p) (text p), Unlock_send (a p)] else []) ps) @ evs)
   = sends_guarded m None evs"
  by (induction ps) auto

lemma broadcast_sends:
  "locked_sends False (new_events s (broadcast_shutdown_message s)) =
     map (\<lambda>p. (socket_fd (mem s p), frame ''SHUTDOWN Server shutting down...''))
       (filter (\<lambda>p. authenticated (mem s p)) (clients_head s))"
  "unlocked_sends False (new_events s (broadcast_shutdown_message s)) = []"
  "sends_guarded (mem s) None (new_events s (broadcast_shutdown_message s))"
  using locked_sends_chunks[of "\<lambda>p. authenticated (mem s p)" "\<lambda>p. p" "\<lambda>p. socket_fd (mem s p)"
      "\<lambda>p. frame ''SHUTDOWN Server shutting down...''" "clients_head s" "[Unlock_clients]"]
    unlocked_sends_chunks[of "\<lambda>p. authenticated (mem s p)" "\<lambda>p. p" "\<lambda>p. socket_fd (mem s p)"
      "\<lambda>p. frame ''SHUTDOWN Server shutting down...''" "clients_head s" "[Unlock_clients]"]
    sends_guarded_chunks[of "\<lambda>p. socket_fd (mem s p)" "mem s" "\<lambda>p. p" "\<lambda>p. authenticated (mem s p)"
      "\<lambda>p. frame ''SHUTDOWN Server shutting down...''" "clients_head s" "[Unlock_clients]"]
  by (simp_all add: new_events_def broadcast_shutdown_message_def broadcast_loop_trace cong: if_cong)

lemma notify_sends:
  "locked_sends False (new_events s (notify_user_list session s)) =
     (socket_fd (mem s session), frame ''USERS_BEGIN'') #
     map (\<lambda>p. (socket_fd (mem s session), frame (''USER '' @ username (mem s p))))
       (filter (\<lambda>p. authenticated (mem s p)) (clients_head s))"
  "unlocked_sends False (new_events s (notify_user_list session s)) =
     [(socket_fd (mem s session), frame ''USERS_END'')]"
  "sends_guarded (mem s) None (new_events s (notify_user_list session s))"
  using locked_sends_chunks[of "\<lambda>p. authenticated (mem s p)" "\<lambda>p. session" "\<lambda>p. socket_fd (mem s session)"
      "\<lambda>p. frame (''USER '' @ username (mem s p))" "clients_head s"
      "[Unlock_clients, Lock_send session, Send (socket_fd (mem s session)) (frame ''USERS_END''), Unlock_send session]"]
    unlocked_sends_chunks[of "\<lambda>p. authenticated (mem s p)" "\<lambda>p. session" "\<lambda>p. socket_fd (mem s session)"
      "\<lambda>p. frame (''USER '' @ username (mem s p))" "clients_head s"
      "[Unlock_clients, Lock_send session, Send (socket_fd (mem s session)) (frame ''USERS_END''), Unlock_send session]"]
    sends_guarded_chunks[of "\<lambda>p. socket_fd (mem s session)" "mem s" "\<lambda>p. session" "\<lambda>p. authenticated (mem s p)"
      "\<lambda>p. frame (''USER '' @ username (mem s p))" "clients_head s"
      "[Unlock_clients, Lock_send session, Send (socket_fd (mem s session)) (frame ''USERS_END''), Unlock_send session]"]
  by (simp_all add: new_events_def notify_user_list_def users_loop_trace cong: if_cong)

lemma deliver_sends:
  "locked_sends False (new_events s (deliver_message env sender receiver body s)) =
     (case find_client_by_name receiver s of
        None \<Rightarrow> []
      | Some target \<Rightarrow> [(socket_fd (mem s target), frame (''MESSAGE '' @ sender @ '' '' @ body))])"
  "unlocked_sends False (new_events s (deliver_message env sender receiver body s)) = []"
  "sends_guarded (mem s) None (new_events s (deliver_message env sender receiver body s))"
  by (simp_all add: new_events_def deliver_message_trace split: option.split)

lemma quiet_under_lock:
  "locked_sends False (new_events s (add_client session s)) = []"
  "locked_sends False (new_events s (remove_client session s)) = []"
  "locked_sends False (new_events s (worker_auth session line s)) = []"
  by (simp_all add: new_events_def add_client_def worker_auth_def Let_def)

text \<open>
  Claim C8, amended. The registry lock is held across in-memory work only in
  \<^verbatim>\<open>add_client\<close>, in \<^verbatim>\<open>remove_client\<close> and in the registration of \<^verbatim>\<open>AUTH\<close>, which send
  nothing while they hold it. \<^verbatim>\<open>deliver_message\<close> sends the \<^verbatim>\<open>MESSAGE\<close> line to the
  receiver under the lock when the receiver is connected, and sends nothing otherwise.
  \<^verbatim>\<open>notify_user_list\<close> sends \<^verbatim>\<open>USERS_BEGIN\<close> and the \<^verbatim>\<open>USER\<close> line of every
  authenticated session of the list under the lock, and \<^verbatim>\<open>USERS_END\<close> after releasing it.
  \<^verbatim>\<open>broadcast_shutdown_message\<close> sends the \<^verbatim>\<open>SHUTDOWN\<close> line to every authenticated
  session of the list under the lock. In these three operations every send is made while
  the \<^verbatim>\<open>send_lock\<close> of the session whose socket is written to is held.
\<close>

theorem registry_lock_and_sends:
  "\<not> send_under_lock False (new_events s (add_client session s)) \<and>
   \<not> send_under_lock False (new_events s (remove_client session s)) \<and>
   \<not> send_under_lock False (new_events s (worker_auth session line s)) \<and>
   send_under_lock False (new_events s (deliver_message env sender receiver body s)) =
     (find_client_by_name receiver s \<noteq> None) \<and>
   send_under_lock False (new_events s (notify_user_list session s)) \<and>
   send_under_lock False (new_events s (broadcast_shutdown_message s)) =
     (\<exists>p \<in> set (clients_head s). authenticated (mem s p)) \<and>
   locked_sends False (new_events s (add_client session s)) = [] \<and>
   locked_sends False (new_events s (remove_client session s)) = [] \<and>
   locked_sends False (new_events s (worker_auth session line s)) = [] \<and>
   locked_sends False (new_events s (deliver_message env sender receiver body s)) =
     (case find_client_by_name receiver s of
        None \<Rightarrow> []
      | Some target \<Rightarrow> [(socket_fd (mem s target), frame (''MESSAGE '' @ sender @ '' '' @ body))]) \<and>
   unlocked_sends False (new_events s (deliver_message env sender receiver body s)) = [] \<and>
   locked_sends False (new_events s (notify_user_list session s)) =
     (socket_fd (mem s session), frame ''USERS_BEGIN'') #
     map (\<lambda>p. (socket_fd (mem s session), frame (''USER '' @ username (mem s p))))
       (filter (\<lambda>p. authenticated (mem s p)) (clients_head s)) \<and>
   unlocked_sends False (new_events s (notify_user_list session s)) =
     [(socket_fd (mem s session), frame ''USERS_END'')] \<and>
   locked_sends False (new_events s (broadcast_shutdown_message s)) =
     map (\<lambda>p. (socket_fd (mem s p), frame ''SHUTDOWN Server shutting down...''))
       (filter (\<lambda>p. authenticated (mem s p)) (clients_head s)) \<and>
   unlocked_sends False (new_events s (broadcast_shutdown_message s)) = [] \<and>
   sends_guarded (mem s) None (new_events s (deliver_message env sender receiver body s)) \<and>
   sends_guarded (mem s) None (new_events s (notify_user_list session s)) \<and>
   sends_guarded (mem s) None (new_events s (broadcast_shutdown_message s))"
  by (intro conjI add_remove_not_under_lock auth_not_under_lock deliver_under_lock notify_under_lock
      broadcast_under_lock quiet_under_lock deliver_sends notify_sends broadcast_sends)

theorem registry_lock_and_sends_witness:
  "\<not> send_under_lock False (new_events two_clients (worker_auth 10 ''AUTH alice'' two_clients)) \<and>
   new_events two_clients (worker_auth 10 ''AUTH alice'' two_clients) =
     [Lock_clients, Unlock_clients, Lock_send 10, Send 4 (''OK Authenticated as alice'' @ [LF]), Unlock_send 10] \<and>
   send_under_lock False (new_events two_clients (broadcast_shutdown_message two_clients)) = False \<and>
   send_under_lock False (new_events alice_bob (broadcast_shutdown_message alice_bob)) = True \<and>
   locked_sends False (new_events alice_bob (broadcast_shutdown_message alice_bob)) =
     [(5, ''SHUTDOWN Server shutting down...'' @ [LF]), (4, ''SHUTDOWN Server shutting down...'' @ [LF])] \<and>
   locked_sends False (new_events alice_bob (notify_user_list 10 alice_bob)) =
     [(4, ''USERS_BEGIN'' @ [LF]), (4, ''USER bob'' @ [LF]), (4, ''USER alice'' @ [LF])] \<and>
   unlocked_sends False (new_events alice_bob (notify_user_list 10 alice_bob)) = [(4, ''USERS_END'' @ [LF])] \<and>
   sends_guarded (mem alice_bob) None (new_events alice_bob (notify_user_list 10 alice_bob))"
proof -
  note t = registry_lock_and_sends[of two_clients 10 "''AUTH alice''"]
  note u = registry_lock_and_sends[of alice_bob 10]
  have 1: "\<not> send_under_lock False (new_events two_clients (worker_auth 10 ''AUTH alice'' two_clients))"
    using t by blast
  have 2: "new_events two_clients (worker_auth 10 ''AUTH alice'' two_clients) =
     [Lock_clients, Unlock_clients, Lock_send 10, Send 4 (''OK Authenticated as alice'' @ [LF]), Unlock_send 10]"
    by (simp add: new_events_def worker_auth_def two_clients_simps frame_def
      strncmp_eq_def trim_newline_def is_trimmed_def LF_def CR_def SP_def NUL_def MAX_USERNAME_def
      username_available_def find_client_by_name_def strncpy_def Let_def)
  have 3: "send_under_lock False (new_events two_clients (broadcast_shutdown_message two_clients)) = False"
    using t by (simp add: two_clients_simps)
  have 4: "send_under_lock False (new_events alice_bob (broadcast_shutdown_message alice_bob)) = True"
    using u by (simp add: alice_bob_simps)
  have 5: "locked_sends False (new_events alice_bob (broadcast_shutdown_message alice_bob)) =
     [(5, ''SHUTDOWN Server shutting down...'' @ [LF]), (4, ''SHUTDOWN Server shutting down...'' @ [LF])]"
    using u by (simp add: alice_bob_simps frame_def)
  have 6: "locked_sends False (new_events alice_bob (notify_user_list 10 alice_bob)) =
     [(4, ''USERS_BEGIN'' @ [LF]), (4, ''USER bob'' @ [LF]), (4, ''USER alice'' @ [LF])]"
    using u by (simp add: alice_bob_simps frame_def)
  have 7: "unlocked_sends False (new_events alice_bob (notify_user_list 10 alice_bob)) = [(4, ''USERS_END'' @ [LF])]"
    using u by (simp add: alice_bob_simps frame_def)
  have 8: "sends_guarded (mem alice_bob) None (new_events alice_bob (notify_user_list 10 alice_bob))"
    using u by blast
  from 1 2 3 4 5 6 7 8 show ?thesis by (intro conjI)
qed

section \<open>Properties of interleaved registration\<close>

lemma username_available_iff:
  "username_available uname s =
     (\<forall>q \<in> set (clients_head s).
        \<not> (authenticated (mem s q) \<and> strncmp_eq (username (mem s q)) uname MAX_USERNAME))"
  by (simp add: username_available_def find_client_by_name_def find_loop_None)

lemma names_unique_emit [simp]: "names_unique (emit ev s) = names_unique s"
  by (simp add: names_unique_def)

lemma names_unique_send_formatted [simp]: "names_unique (send_formatted p text s) = names_unique s"
  by (simp add: names_unique_def)

lemma username_available_emit [simp]: "username_available uname (emit ev s) = username_available uname s"
  by (simp add: username_available_iff)

lemma username_available_send_formatted [simp]:
  "username_available uname (send_formatted p text s) = username_available uname s"
  by (simp add: username_available_iff)

lemma holds_lock_unique:
  "\<forall>p. (lock_owner c = Some p) = holds_lock (pc c p) \<Longrightarrow> holds_lock (pc c p) \<Longrightarrow>
     holds_lock (pc c q) \<Longrightarrow> p = q"
  by (metis option.inject)

lemma saw_free_holds_lock: "saw_free l \<Longrightarrow> holds_lock l"
  by (cases l) simp_all

lemma auth_inv_others:
  assumes "auth_inv uname T c0 c" and "holds_lock (pc c p)" and "q \<noteq> p"
  shows "\<not> holds_lock (pc c q)" and "\<not> saw_free (pc c q)"
proof -
  from assms(1) have l: "\<And>r. (lock_owner c = Some r) = holds_lock (pc c r)"
    by (simp add: auth_inv_def)
  from l[of p] assms(2) have "lock_owner c = Some p" by simp
  with l[of q] assms(3) show "\<not> holds_lock (pc c q)" by auto
  then show "\<not> saw_free (pc c q)" using saw_free_holds_lock by blast
qed

lemma auth_inv_unlocked:
  assumes "auth_inv uname T c0 c" and "lock_owner c = None"
  shows "\<not> holds_lock (pc c q)" and "\<not> saw_free (pc c q)"
proof -
  from assms(1) have l: "\<And>r. (lock_owner c = Some r) = holds_lock (pc c r)"
    by (simp add: auth_inv_def)
  from l[of q] assms(2) show "\<not> holds_lock (pc c q)" by simp
  then show "\<not> saw_free (pc c q)" using saw_free_holds_lock by blast
qed

lemma auth_inv_facts:
  assumes "auth_inv uname T c0 c"
  shows "(lock_owner c = Some p) = holds_lock (pc c p)"
    and "saw_free (pc c p) \<Longrightarrow> username_available uname (srv c)"
    and "saw_taken (pc c p) \<Longrightarrow> \<not> username_available uname (srv c)"
    and "name_written (pc c p) \<Longrightarrow> username (mem (srv c) p) = uname"
    and "p \<notin> T \<Longrightarrow> pc c p = Idle"
    and "p \<in> T \<Longrightarrow> authenticated (mem (srv c) p) = flag_up (pc c p)"
  using assms by (auto simp: auth_inv_def)

lemma auth_inv_lock:
  assumes "auth_inv uname T c0 c" and "pc c p = At_lock"
  shows "auth_inv uname T c0 (auth_thread_step uname p c)"
proof (cases "lock_owner c = None")
  case True
  note auth_inv_unlocked[OF assms(1) True]
  with assms True show ?thesis
    by (auto simp: auth_inv_def auth_thread_step_def)
next
  case False
  with assms show ?thesis by (auto simp: auth_thread_step_def)
qed

lemma auth_inv_check:
  assumes "auth_inv uname T c0 c" and "pc c p = At_check"
  shows "auth_inv uname T c0 (auth_thread_step uname p c)"
proof -
  have h: "holds_lock (pc c p)" using assms(2) by simp
  note o = auth_inv_others[OF assms(1) h]
  note f = auth_inv_facts[OF assms(1), of p]
  from assms o f show ?thesis
    by (auto simp: auth_inv_def auth_thread_step_def)
qed

lemma auth_inv_unlock_ok:
  assumes "auth_inv uname T c0 c" and "pc c p = At_unlock_ok"
  shows "auth_inv uname T c0 (auth_thread_step uname p c)"
proof -
  have h: "holds_lock (pc c p)" using assms(2) by simp
  note o = auth_inv_others[OF assms(1) h]
  note f = auth_inv_facts[OF assms(1), of p]
  from assms o f show ?thesis
    by (auto simp: auth_inv_def auth_thread_step_def)
qed

lemma auth_inv_unlock_taken:
  assumes "auth_inv uname T c0 c" and "pc c p = At_unlock_taken"
  shows "auth_inv uname T c0 (auth_thread_step uname p c)"
proof -
  have h: "holds_lock (pc c p)" using assms(2) by simp
  note o = auth_inv_others[OF assms(1) h]
  note f = auth_inv_facts[OF assms(1), of p]
  from assms o f show ?thesis
    by (auto simp: auth_inv_def auth_thread_step_def)
qed

lemma auth_inv_send_ok:
  assumes "auth_inv uname T c0 c" and "pc c p = At_send_ok"
  shows "auth_inv uname T c0 (auth_thread_step uname p c)"
proof -
  note f = auth_inv_facts[OF assms(1), of p]
  from assms f show ?thesis
    by (auto simp: auth_inv_def auth_thread_step_def)
qed

lemma auth_inv_send_taken:
  assumes "auth_inv uname T c0 c" and "pc c p = At_send_taken"
  shows "auth_inv uname T c0 (auth_thread_step uname p c)"
proof -
  note f = auth_inv_facts[OF assms(1), of p]
  from assms f show ?thesis
    by (auto simp: auth_inv_def auth_thread_step_def)
qed

lemma username_available_mem_update:
  "\<not> authenticated (mem s p) \<Longrightarrow>
     username_available uname (s\<lparr>mem := (mem s)(p := (mem s p)\<lparr>username := name\<rparr>)\<rparr>) =
     username_available uname s"
  by (auto simp: username_available_iff)

lemma names_unique_mem_update:
  "\<not> authenticated (mem s p) \<Longrightarrow>
     names_unique (s\<lparr>mem := (mem s)(p := (mem s p)\<lparr>username := name\<rparr>)\<rparr>) = names_unique s"
  by (auto simp: names_unique_def)

lemma auth_inv_copy:
  assumes "auth_inv uname T c0 c" and "pc c p = At_copy" and "length uname < MAX_USERNAME"
  shows "auth_inv uname T c0 (auth_thread_step uname p c)"
proof -
  have h: "holds_lock (pc c p)" using assms(2) by simp
  note o = auth_inv_others[OF assms(1) h]
  note f = auth_inv_facts[OF assms(1), of p]
  have inT: "p \<in> T" using f(5) assms(2) by auto
  have down: "\<not> authenticated (mem (srv c) p)" using f(6)[OF inT] assms(2) by simp
  from assms o f inT down show ?thesis
    by (auto simp: auth_inv_def auth_thread_step_def strncpy_def username_available_mem_update
        names_unique_mem_update)
qed

lemma username_taken_after_flag:
  assumes "p \<in> set (clients_head s)" and "username (mem s p) = uname"
  shows "\<not> username_available uname (s\<lparr>mem := (mem s)(p := (mem s p)\<lparr>authenticated := True\<rparr>)\<rparr>)"
  using assms by (auto simp: username_available_iff strncmp_eq_refl)

lemma names_unique_after_flag:
  assumes "names_unique s" and "username_available uname s" and "username (mem s p) = uname"
  shows "names_unique (s\<lparr>mem := (mem s)(p := (mem s p)\<lparr>authenticated := True\<rparr>)\<rparr>)"
  unfolding names_unique_def
proof (intro ballI impI)
  let ?s' = "s\<lparr>mem := (mem s)(p := (mem s p)\<lparr>authenticated := True\<rparr>)\<rparr>"
  fix a b
  assume a: "a \<in> set (clients_head ?s')" and b: "b \<in> set (clients_head ?s')"
    and ab: "a \<noteq> b \<and> authenticated (mem ?s' a) \<and> authenticated (mem ?s' b)"
  have free: "\<And>q. q \<in> set (clients_head s) \<Longrightarrow> authenticated (mem s q) \<Longrightarrow> username (mem s q) \<noteq> uname"
    using assms(2) by (auto simp: username_available_iff strncmp_eq_refl)
  show "username (mem ?s' a) \<noteq> username (mem ?s' b)"
  proof (cases "a = p")
    case True
    with ab have "b \<noteq> p" and "authenticated (mem s b)" by auto
    with free[of b] b have "username (mem s b) \<noteq> uname" by simp
    with True \<open>b \<noteq> p\<close> assms(3) show ?thesis by auto
  next
    case False
    show ?thesis
    proof (cases "b = p")
      case True
      with ab False have "authenticated (mem s a)" by auto
      with free[of a] a have "username (mem s a) \<noteq> uname" by simp
      with True False assms(3) show ?thesis by auto
    next
      case bp: False
      with False ab have "authenticated (mem s a)" "authenticated (mem s b)" "a \<noteq> b" by auto
      with assms(1) a b have "username (mem s a) \<noteq> username (mem s b)"
        by (auto simp: names_unique_def)
      with False bp show ?thesis by simp
    qed
  qed
qed

lemma auth_inv_flag:
  assumes "auth_inv uname T c0 c" and "pc c p = At_flag" and "T \<subseteq> set (clients_head (srv c0))"
  shows "auth_inv uname T c0 (auth_thread_step uname p c)"
proof -
  have h: "holds_lock (pc c p)" using assms(2) by simp
  note o = auth_inv_others[OF assms(1) h]
  note f = auth_inv_facts[OF assms(1), of p]
  have inT: "p \<in> T" using f(5) assms(2) by auto
  have name: "username (mem (srv c) p) = uname" using f(4) assms(2) by simp
  have free: "username_available uname (srv c)" using f(2) assms(2) by simp
  have heads: "clients_head (srv c) = clients_head (srv c0)" using assms(1) by (simp add: auth_inv_def)
  have listed: "p \<in> set (clients_head (srv c))" using inT assms(3) heads by auto
  have uniq: "names_unique (srv c)" using assms(1) by (simp add: auth_inv_def)
  note t = username_taken_after_flag[OF listed name]
  note u = names_unique_after_flag[OF uniq free name]
  from assms(1,2) o f inT name t u show ?thesis
    by (auto simp: auth_inv_def auth_thread_step_def)
qed

lemma auth_inv_step:
  assumes "auth_inv uname T c0 c" and "length uname < MAX_USERNAME"
    and "T \<subseteq> set (clients_head (srv c0))"
  shows "auth_inv uname T c0 (auth_thread_step uname p c)"
proof (cases "pc c p")
  case Idle
  with assms(1) show ?thesis by (simp add: auth_thread_step_def)
next
  case At_lock
  with assms(1) show ?thesis by (rule auth_inv_lock)
next
  case At_check
  with assms(1) show ?thesis by (rule auth_inv_check)
next
  case At_copy
  with assms(1) show ?thesis using assms(2) by (rule auth_inv_copy)
next
  case At_flag
  with assms(1) show ?thesis using assms(3) by (rule auth_inv_flag)
next
  case At_unlock_ok
  with assms(1) show ?thesis by (rule auth_inv_unlock_ok)
next
  case At_send_ok
  with assms(1) show ?thesis by (rule auth_inv_send_ok)
next
  case At_unlock_taken
  with assms(1) show ?thesis by (rule auth_inv_unlock_taken)
next
  case At_send_taken
  with assms(1) show ?thesis by (rule auth_inv_send_taken)
next
  case Done_ok
  with assms(1) show ?thesis by (simp add: auth_thread_step_def)
next
  case Done_taken
  with assms(1) show ?thesis by (simp add: auth_thread_step_def)
qed

lemma auth_inv_run:
  assumes "auth_inv uname T c0 c" and "length uname < MAX_USERNAME"
    and "T \<subseteq> set (clients_head (srv c0))"
  shows "auth_inv uname T c0 (auth_run uname sched c)"
  using assms(1)
proof (induction sched arbitrary: c)
  case Nil
  then show ?case by simp
next
  case (Cons p sched)
  from Cons.prems have "auth_inv uname T c0 (auth_thread_step uname p c)"
    using assms(2,3) by (rule auth_inv_step)
  then show ?case by (simp add: Cons.IH)
qed

lemma auth_inv_start: "auth_start uname T c0 \<Longrightarrow> auth_inv uname T c0 c0"
  by (auto simp: auth_start_def auth_inv_def)

lemma auth_replies_step:
  assumes "auth_inv uname T c0 c" and "auth_replies uname c"
  shows "auth_replies uname (auth_thread_step uname p c)"
proof -
  note f = auth_inv_facts(4)[OF assms(1), of p]
  show ?thesis
  proof (cases "pc c p")
    case At_send_ok
    with f have "username (mem (srv c) p) = uname" by simp
    with assms(2) At_send_ok show ?thesis
      by (auto simp: auth_replies_def auth_thread_step_def)
  qed (use assms(2) in \<open>auto simp: auth_replies_def auth_thread_step_def\<close>)
qed

lemma auth_replies_run:
  assumes "auth_inv uname T c0 c" and "auth_replies uname c" and "length uname < MAX_USERNAME"
    and "T \<subseteq> set (clients_head (srv c0))"
  shows "auth_replies uname (auth_run uname sched c)"
  using assms(1,2)
proof (induction sched arbitrary: c)
  case Nil
  then show ?case by simp
next
  case (Cons p sched)
  have i: "auth_inv uname T c0 (auth_thread_step uname p c)"
    using Cons.prems(1) assms(3,4) by (rule auth_inv_step)
  have r: "auth_replies uname (auth_thread_step uname p c)"
    using Cons.prems by (rule auth_replies_step)
  from Cons.IH[OF i r] show ?case by simp
qed

lemma auth_replies_start: "auth_start uname T c0 \<Longrightarrow> auth_replies uname c0"
  by (auto simp: auth_start_def auth_replies_def)

lemma auth_inv_one_winner:
  assumes inv: "auth_inv uname T c0 c" and sub: "T \<subseteq> set (clients_head (srv c0))"
    and p: "p \<in> T" "flag_up (pc c p)" and q: "q \<in> T" "flag_up (pc c q)"
  shows "p = q"
proof (rule ccontr)
  assume ne: "p \<noteq> q"
  from inv have heads: "clients_head (srv c) = clients_head (srv c0)"
    and uniq: "names_unique (srv c)" by (simp_all add: auth_inv_def)
  have "name_written (pc c p)" using p(2) by (cases "pc c p") simp_all
  then have np: "username (mem (srv c) p) = uname" by (rule auth_inv_facts(4)[OF inv])
  have "name_written (pc c q)" using q(2) by (cases "pc c q") simp_all
  then have nq: "username (mem (srv c) q) = uname" by (rule auth_inv_facts(4)[OF inv])
  have ap: "authenticated (mem (srv c) p)" using auth_inv_facts(6)[OF inv p(1)] p(2) by simp
  have aq: "authenticated (mem (srv c) q)" using auth_inv_facts(6)[OF inv q(1)] q(2) by simp
  have "p \<in> set (clients_head (srv c))" "q \<in> set (clients_head (srv c))"
    using p(1) q(1) sub heads by auto
  with uniq ne ap aq have "username (mem (srv c) p) \<noteq> username (mem (srv c) q)"
    by (auto simp: names_unique_def)
  with np nq show False by simp
qed

lemma auth_inv_some_winner:
  assumes inv: "auth_inv uname T c0 c" and start: "auth_start uname T c0"
    and ne: "T \<noteq> {}" and fin: "\<forall>p \<in> T. pc c p = Done_ok \<or> pc c p = Done_taken"
  shows "\<exists>w \<in> T. pc c w = Done_ok"
proof (rule ccontr)
  assume "\<not> (\<exists>w \<in> T. pc c w = Done_ok)"
  with fin have all: "\<And>p. p \<in> T \<Longrightarrow> pc c p = Done_taken" by auto
  from ne obtain p where p: "p \<in> T" by auto
  have "saw_taken (pc c p)" using all[OF p] by simp
  then have "\<not> username_available uname (srv c)" by (rule auth_inv_facts(3)[OF inv])
  then obtain q where q: "q \<in> set (clients_head (srv c))" "authenticated (mem (srv c) q)"
      "strncmp_eq (username (mem (srv c) q)) uname MAX_USERNAME"
    by (auto simp: username_available_iff)
  from inv have heads: "clients_head (srv c) = clients_head (srv c0)"
    and out: "\<And>r. r \<notin> T \<Longrightarrow> mem (srv c) r = mem (srv c0) r"
    by (simp_all add: auth_inv_def)
  have "q \<notin> T"
  proof
    assume qT: "q \<in> T"
    from auth_inv_facts(6)[OF inv qT] all[OF qT] q(2) show False by simp
  qed
  with out have "mem (srv c) q = mem (srv c0) q" by simp
  with q heads have "\<not> username_available uname (srv c0)"
    by (auto simp: username_available_iff)
  with start show False by (simp add: auth_start_def)
qed

lemma auth_thread_step_at:
  "pc c p = At_lock \<Longrightarrow> lock_owner c = None \<Longrightarrow>
     auth_thread_step uname p c =
       c\<lparr>srv := emit Lock_clients (srv c), lock_owner := Some p, pc := (pc c)(p := At_check)\<rparr>"
  "pc c p = At_check \<Longrightarrow>
     auth_thread_step uname p c =
       c\<lparr>pc := (pc c)(p := if username_available uname (srv c) then At_copy else At_unlock_taken)\<rparr>"
  "pc c p = At_copy \<Longrightarrow>
     auth_thread_step uname p c =
       c\<lparr>srv := (srv c)\<lparr>mem := (mem (srv c))(p := (mem (srv c) p)\<lparr>username := strncpy uname MAX_USERNAME\<rparr>)\<rparr>,
         pc := (pc c)(p := At_flag)\<rparr>"
  "pc c p = At_flag \<Longrightarrow>
     auth_thread_step uname p c =
       c\<lparr>srv := (srv c)\<lparr>mem := (mem (srv c))(p := (mem (srv c) p)\<lparr>authenticated := True\<rparr>)\<rparr>,
         pc := (pc c)(p := At_unlock_ok)\<rparr>"
  "pc c p = At_unlock_ok \<Longrightarrow>
     auth_thread_step uname p c =
       c\<lparr>srv := emit Unlock_clients (srv c), lock_owner := None, pc := (pc c)(p := At_send_ok)\<rparr>"
  "pc c p = At_send_ok \<Longrightarrow>
     auth_thread_step uname p c =
       c\<lparr>srv := send_formatted p (''OK Authenticated as '' @ username (mem (srv c) p)) (srv c),
         pc := (pc c)(p := Done_ok)\<rparr>"
  "pc c p = At_unlock_taken \<Longrightarrow>
     auth_thread_step uname p c =
       c\<lparr>srv := emit Unlock_clients (srv c), lock_owner := None, pc := (pc c)(p := At_send_taken)\<rparr>"
  "pc c p = At_send_taken \<Longrightarrow>
     auth_thread_step uname p c =
       c\<lparr>srv := send_formatted p ''ERROR Username taken'' (srv c), pc := (pc c)(p := Done_taken)\<rparr>"
  "pc c p = Done_taken \<Longrightarrow> auth_thread_step uname p c = c"
  "pc c p = Done_ok \<Longrightarrow> auth_thread_step uname p c = c"
  by (simp_all add: auth_thread_step_def)

lemma auth_steps_are_worker_auth:
  assumes "lock_owner c = None" and "pc c p = At_lock"
    and "trim_newline uname = uname" and "0 < length uname" and "length uname < MAX_USERNAME"
  shows "srv (auth_run uname [p, p, p, p, p, p] c) = worker_auth p (''AUTH '' @ uname) (srv c)"
proof -
  have pre: "strncmp_eq (''AUTH '' @ uname) ''AUTH '' 5"
    using strncmp_eq_prefix[of "''AUTH ''" 5 uname] by simp
  define c1 where "c1 = auth_thread_step uname p c"
  have c1: "pc c1 p = At_check" "srv c1 = emit Lock_clients (srv c)"
    unfolding c1_def using assms(1,2) by (simp_all add: auth_thread_step_at(1))
  define c2 where "c2 = auth_thread_step uname p c1"
  have run: "auth_run uname [p, p, p, p, p, p] c = auth_run uname [p, p, p, p] c2"
    by (simp add: c1_def c2_def)
  show ?thesis
  proof (cases "username_available uname (srv c)")
    case True
    have c2: "pc c2 p = At_copy" "srv c2 = srv c1"
      unfolding c2_def using c1 True by (simp_all add: auth_thread_step_at(2))
    define c3 where "c3 = auth_thread_step uname p c2"
    have c3: "pc c3 p = At_flag"
      "srv c3 = (srv c2)\<lparr>mem := (mem (srv c2))(p := (mem (srv c2) p)\<lparr>username := strncpy uname MAX_USERNAME\<rparr>)\<rparr>"
      unfolding c3_def using c2(1) by (simp_all add: auth_thread_step_at(3))
    define c4 where "c4 = auth_thread_step uname p c3"
    have c4: "pc c4 p = At_unlock_ok"
      "srv c4 = (srv c3)\<lparr>mem := (mem (srv c3))(p := (mem (srv c3) p)\<lparr>authenticated := True\<rparr>)\<rparr>"
      unfolding c4_def using c3(1) by (simp_all add: auth_thread_step_at(4))
    define c5 where "c5 = auth_thread_step uname p c4"
    have c5: "pc c5 p = At_send_ok" "srv c5 = emit Unlock_clients (srv c4)"
      unfolding c5_def using c4(1) by (simp_all add: auth_thread_step_at(5))
    define c6 where "c6 = auth_thread_step uname p c5"
    have c6: "srv c6 = send_formatted p (''OK Authenticated as '' @ username (mem (srv c5) p)) (srv c5)"
      unfolding c6_def using c5(1) by (simp add: auth_thread_step_at(6))
    have "auth_run uname [p, p, p, p] c2 = c6"
      by (simp add: c3_def c4_def c5_def c6_def)
    moreover have "worker_auth p (''AUTH '' @ uname) (srv c) = srv c6"
      unfolding c6 c5(2) c4(2) c3(2) c2(2) c1(2)
      using pre True assms(3,4,5) by (simp add: worker_auth_def Let_def)
    ultimately show ?thesis by (simp only: run)
  next
    case False
    have c2: "pc c2 p = At_unlock_taken" "srv c2 = srv c1"
      unfolding c2_def using c1 False by (simp_all add: auth_thread_step_at(2))
    define c3 where "c3 = auth_thread_step uname p c2"
    have c3: "pc c3 p = At_send_taken" "srv c3 = emit Unlock_clients (srv c2)"
      unfolding c3_def using c2(1) by (simp_all add: auth_thread_step_at(7))
    define c4 where "c4 = auth_thread_step uname p c3"
    have c4: "pc c4 p = Done_taken" "srv c4 = send_formatted p ''ERROR Username taken'' (srv c3)"
      unfolding c4_def using c3(1) by (simp_all add: auth_thread_step_at(8))
    have "auth_run uname [p, p, p, p] c2 = c4"
      using c4(1) by (simp add: c3_def[symmetric] c4_def[symmetric] auth_thread_step_at(9))
    moreover have "worker_auth p (''AUTH '' @ uname) (srv c) = srv c4"
      unfolding c4(2) c3(2) c2(2) c1(2)
      using pre False assms(3,4,5) by (simp add: worker_auth_def Let_def)
    ultimately show ?thesis by (simp only: run)
  qed
qed

lemma auth_thread_step_pc_other:
  "q \<noteq> p \<Longrightarrow> pc (auth_thread_step uname p c) q = pc c q"
  by (simp add: auth_thread_step_def split: auth_pc.split)

lemma auth_thread_step_decreases:
  assumes "auth_thread_step uname p c \<noteq> c"
  shows "steps_left (pc (auth_thread_step uname p c) p) < steps_left (pc c p)"
proof (cases "pc c p")
  case Idle
  with assms show ?thesis by (simp add: auth_thread_step_def)
next
  case At_lock
  with assms show ?thesis by (cases "lock_owner c = None") (auto simp: auth_thread_step_def)
qed (use assms in \<open>simp_all add: auth_thread_step_at\<close>)

lemma sum_decreases:
  fixes f g :: "addr \<Rightarrow> nat"
  assumes "finite T" and "p \<in> T" and "g p < f p" and "\<And>q. q \<noteq> p \<Longrightarrow> g q = f q"
  shows "sum g T < sum f T"
proof -
  have "sum g T = g p + sum g (T - {p})" using assms(1,2) by (rule sum.remove)
  moreover have "sum f T = f p + sum f (T - {p})" using assms(1,2) by (rule sum.remove)
  moreover have "sum g (T - {p}) = sum f (T - {p})"
    by (rule sum.cong) (simp_all add: assms(4))
  ultimately show ?thesis using assms(3) by simp
qed

lemma work_left_decreases:
  assumes "finite T" and "p \<in> T" and "auth_thread_step uname p c \<noteq> c"
  shows "work_left T (auth_thread_step uname p c) < work_left T c"
  unfolding work_left_def
  using assms(1,2) auth_thread_step_decreases[OF assms(3)]
  by (rule sum_decreases) (simp add: auth_thread_step_pc_other)

lemma auth_thread_step_moves:
  assumes "pc c p \<noteq> Idle" and "pc c p \<noteq> At_lock" and "\<not> finished (pc c p)"
  shows "auth_thread_step uname p c \<noteq> c"
proof
  assume eq: "auth_thread_step uname p c = c"
  have "pc (auth_thread_step uname p c) p \<noteq> pc c p"
    using assms by (cases "pc c p") (simp_all add: auth_thread_step_at)
  with eq show False by simp
qed

lemma auth_inv_no_deadlock:
  assumes inv: "auth_inv uname T c0 c"
    and rest: "\<forall>p \<in> T. auth_thread_step uname p c = c"
  shows "\<forall>p \<in> T. finished (pc c p)"
proof
  fix p assume p: "p \<in> T"
  from inv p have notidle: "pc c p \<noteq> Idle" by (simp add: auth_inv_def)
  show "finished (pc c p)"
  proof (rule ccontr)
    assume nf: "\<not> finished (pc c p)"
    have at_lock: "pc c p = At_lock"
    proof (rule ccontr)
      assume "pc c p \<noteq> At_lock"
      with notidle nf have "auth_thread_step uname p c \<noteq> c" by (intro auth_thread_step_moves)
      with rest p show False by simp
    qed
    have "lock_owner c \<noteq> None"
    proof
      assume "lock_owner c = None"
      with at_lock have "pc (auth_thread_step uname p c) p = At_check"
        by (simp add: auth_thread_step_at)
      with rest p at_lock show False by simp
    qed
    then obtain q where q: "lock_owner c = Some q" by auto
    then have hq: "holds_lock (pc c q)" using auth_inv_facts(1)[OF inv, of q] by simp
    have qT: "q \<in> T"
    proof (rule ccontr)
      assume "q \<notin> T"
      then have "pc c q = Idle" by (rule auth_inv_facts(5)[OF inv])
      with hq show False by simp
    qed
    have "auth_thread_step uname q c \<noteq> c"
      using hq by (intro auth_thread_step_moves) (cases "pc c q"; simp)+
    with rest qT show False by simp
  qed
qed

lemma auth_run_append: "auth_run uname (xs @ ys) c = auth_run uname ys (auth_run uname xs c)"
  by (induction xs arbitrary: c) simp_all

lemma auth_inv_can_finish:
  assumes fin: "finite T" and len: "length uname < MAX_USERNAME"
    and sub: "T \<subseteq> set (clients_head (srv c0))"
  shows "auth_inv uname T c0 c \<Longrightarrow> \<exists>sched. set sched \<subseteq> T \<and> length sched \<le> work_left T c \<and>
           (\<forall>p \<in> T. finished (pc (auth_run uname sched c) p))"
proof (induction "work_left T c" arbitrary: c rule: less_induct)
  case less
  show ?case
  proof (cases "\<forall>p \<in> T. auth_thread_step uname p c = c")
    case True
    with less.prems have "\<forall>p \<in> T. finished (pc c p)" by (rule auth_inv_no_deadlock)
    then have "set [] \<subseteq> T \<and> length ([]::addr list) \<le> work_left T c \<and>
        (\<forall>p \<in> T. finished (pc (auth_run uname [] c) p))" by simp
    then show ?thesis by blast
  next
    case False
    then obtain p where p: "p \<in> T" "auth_thread_step uname p c \<noteq> c" by blast
    let ?c' = "auth_thread_step uname p c"
    have dec: "work_left T ?c' < work_left T c" using fin p by (rule work_left_decreases)
    have inv': "auth_inv uname T c0 ?c'" using less.prems len sub by (rule auth_inv_step)
    from less.hyps[OF dec inv'] obtain sched where s: "set sched \<subseteq> T"
      "length sched \<le> work_left T ?c'" "\<forall>q \<in> T. finished (pc (auth_run uname sched ?c') q)"
      by blast
    have "set (p # sched) \<subseteq> T \<and> length (p # sched) \<le> work_left T c \<and>
        (\<forall>q \<in> T. finished (pc (auth_run uname (p # sched) c) q))"
      using s p(1) dec by simp
    then show ?thesis by blast
  qed
qed

lemma steps_left_le: "steps_left l \<le> 6"
  by (cases l) simp_all

text \<open>
  Claim C1 (unique registration under interleaving). Take any schedule of the statements
  of workers that all try to register the same free name. In the system it leads to, no
  two authenticated sessions of the client list carry the same name; at most one worker
  is between the lock and the unlock of the registry mutex, and a worker that has found
  the name free and not yet released the mutex is its owner, so the check and the two
  writes form one critical section; at most one attempt has its flag up. Once all workers
  have finished, one of them has been sent \<^verbatim>\<open>OK Authenticated as\<close> with the name and is
  authenticated under it, and every other one has been sent \<^verbatim>\<open>ERROR Username taken\<close>.
  The workers do finish: when no worker can take a step, every worker has been sent its
  reply (no worker is left waiting for the mutex); from the system any schedule leads
  to, at most as many further steps of the workers as \<open>work_left\<close> counts, at most six
  for each worker, lead to that end; and every step that changes the system lowers
  \<open>work_left\<close>, so no schedule can keep the workers from that end for ever except by
  not running them.
\<close>

theorem auth_race_one_winner:
  assumes "auth_start uname T c0"
  shows "names_unique (srv (auth_run uname sched c0)) \<and>
     (\<forall>p q. holds_lock (pc (auth_run uname sched c0) p) \<and> holds_lock (pc (auth_run uname sched c0) q)
        \<longrightarrow> p = q) \<and>
     (\<forall>p. saw_free (pc (auth_run uname sched c0) p) \<longrightarrow> lock_owner (auth_run uname sched c0) = Some p) \<and>
     (\<forall>p \<in> T. \<forall>q \<in> T. flag_up (pc (auth_run uname sched c0) p) \<and> flag_up (pc (auth_run uname sched c0) q)
        \<longrightarrow> p = q) \<and>
     (T \<noteq> {} \<and> (\<forall>p \<in> T. pc (auth_run uname sched c0) p = Done_ok \<or> pc (auth_run uname sched c0) p = Done_taken)
        \<longrightarrow> (\<exists>w \<in> T.
               authenticated (mem (srv (auth_run uname sched c0)) w) \<and>
               username (mem (srv (auth_run uname sched c0)) w) = uname \<and>
               Send (socket_fd (mem (srv (auth_run uname sched c0)) w)) (frame (''OK Authenticated as '' @ uname))
                 \<in> set (trace (srv (auth_run uname sched c0))) \<and>
               (\<forall>p \<in> T. p \<noteq> w \<longrightarrow>
                  \<not> authenticated (mem (srv (auth_run uname sched c0)) p) \<and>
                  Send (socket_fd (mem (srv (auth_run uname sched c0)) p)) (frame ''ERROR Username taken'')
                    \<in> set (trace (srv (auth_run uname sched c0)))))) \<and>
     ((\<forall>p \<in> T. auth_thread_step uname p (auth_run uname sched c0) = auth_run uname sched c0)
        \<longrightarrow> (\<forall>p \<in> T. pc (auth_run uname sched c0) p = Done_ok \<or> pc (auth_run uname sched c0) p = Done_taken)) \<and>
     (\<exists>more. set more \<subseteq> T \<and> length more \<le> work_left T (auth_run uname sched c0) \<and>
        work_left T (auth_run uname sched c0) \<le> 6 * card T \<and>
        (\<forall>p \<in> T. pc (auth_run uname (sched @ more) c0) p = Done_ok \<or>
                   pc (auth_run uname (sched @ more) c0) p = Done_taken)) \<and>
     (\<forall>p \<in> T. auth_thread_step uname p (auth_run uname sched c0) \<noteq> auth_run uname sched c0 \<longrightarrow>
        work_left T (auth_thread_step uname p (auth_run uname sched c0)) < work_left T (auth_run uname sched c0))"
proof -
  let ?c = "auth_run uname sched c0"
  from assms have len: "length uname < MAX_USERNAME" and sub: "T \<subseteq> set (clients_head (srv c0))"
    by (simp_all add: auth_start_def)
  have inv: "auth_inv uname T c0 ?c"
    using auth_inv_start[OF assms] len sub by (rule auth_inv_run)
  have rep: "auth_replies uname ?c"
    using auth_inv_start[OF assms] auth_replies_start[OF assms] len sub by (rule auth_replies_run)
  have 1: "names_unique (srv ?c)" using inv by (simp add: auth_inv_def)
  have 2: "\<forall>p q. holds_lock (pc ?c p) \<and> holds_lock (pc ?c q) \<longrightarrow> p = q"
    using auth_inv_others(1)[OF inv] by blast
  have 3: "\<forall>p. saw_free (pc ?c p) \<longrightarrow> lock_owner ?c = Some p"
    using auth_inv_facts(1)[OF inv] saw_free_holds_lock by blast
  have 4: "\<forall>p \<in> T. \<forall>q \<in> T. flag_up (pc ?c p) \<and> flag_up (pc ?c q) \<longrightarrow> p = q"
    using auth_inv_one_winner[OF inv sub] by blast
  have 5: "\<exists>w \<in> T. authenticated (mem (srv ?c) w) \<and> username (mem (srv ?c) w) = uname \<and>
               Send (socket_fd (mem (srv ?c) w)) (frame (''OK Authenticated as '' @ uname)) \<in> set (trace (srv ?c)) \<and>
               (\<forall>p \<in> T. p \<noteq> w \<longrightarrow> \<not> authenticated (mem (srv ?c) p) \<and>
                  Send (socket_fd (mem (srv ?c) p)) (frame ''ERROR Username taken'') \<in> set (trace (srv ?c)))"
    if ne: "T \<noteq> {}" and fin: "\<forall>p \<in> T. pc ?c p = Done_ok \<or> pc ?c p = Done_taken"
  proof -
    from auth_inv_some_winner[OF inv assms ne fin]
    obtain w where w: "w \<in> T" "pc ?c w = Done_ok" by blast
    have aw: "authenticated (mem (srv ?c) w)"
      using auth_inv_facts(6)[OF inv w(1)] w(2) by simp
    have nw: "username (mem (srv ?c) w) = uname"
      using auth_inv_facts(4)[OF inv, of w] w(2) by simp
    have sw: "Send (socket_fd (mem (srv ?c) w)) (frame (''OK Authenticated as '' @ uname)) \<in> set (trace (srv ?c))"
      using rep w(2) by (simp add: auth_replies_def)
    have others: "\<not> authenticated (mem (srv ?c) p) \<and>
                  Send (socket_fd (mem (srv ?c) p)) (frame ''ERROR Username taken'') \<in> set (trace (srv ?c))"
      if p: "p \<in> T" "p \<noteq> w" for p
    proof -
      have "pc ?c p \<noteq> Done_ok"
      proof
        assume "pc ?c p = Done_ok"
        with auth_inv_one_winner[OF inv sub p(1) _ w(1)] w(2) p(2) show False by simp
      qed
      with fin p(1) have d: "pc ?c p = Done_taken" by auto
      then have "\<not> authenticated (mem (srv ?c) p)"
        using auth_inv_facts(6)[OF inv p(1)] by simp
      moreover have "Send (socket_fd (mem (srv ?c) p)) (frame ''ERROR Username taken'') \<in> set (trace (srv ?c))"
        using rep d by (simp add: auth_replies_def)
      ultimately show ?thesis by simp
    qed
    from w(1) aw nw sw others show ?thesis by blast
  qed
  have fin_iff: "finished l = (l = Done_ok \<or> l = Done_taken)" for l
    by (cases l) simp_all
  have 6: "(\<forall>p \<in> T. auth_thread_step uname p ?c = ?c)
        \<longrightarrow> (\<forall>p \<in> T. pc ?c p = Done_ok \<or> pc ?c p = Done_taken)"
    using auth_inv_no_deadlock[OF inv] by (simp add: fin_iff)
  have finT: "finite T" using sub by (rule finite_subset) simp
  have bound: "work_left T ?c \<le> 6 * card T"
    unfolding work_left_def using sum_bounded_above[of T "\<lambda>p. steps_left (pc ?c p)" 6]
    by (simp add: steps_left_le mult.commute)
  from auth_inv_can_finish[OF finT len sub inv]
  obtain more where m: "set more \<subseteq> T" "length more \<le> work_left T ?c"
    "\<forall>p \<in> T. finished (pc (auth_run uname more ?c) p)" by blast
  have 7: "\<exists>more. set more \<subseteq> T \<and> length more \<le> work_left T ?c \<and> work_left T ?c \<le> 6 * card T \<and>
        (\<forall>p \<in> T. pc (auth_run uname (sched @ more) c0) p = Done_ok \<or>
                   pc (auth_run uname (sched @ more) c0) p = Done_taken)"
    using m bound by (auto simp: auth_run_append fin_iff)
  have 8: "\<forall>p \<in> T. auth_thread_step uname p ?c \<noteq> ?c \<longrightarrow>
        work_left T (auth_thread_step uname p ?c) < work_left T ?c"
    using work_left_decreases[OF finT] by blast
  from 1 2 3 4 5 have safe: "names_unique (srv ?c) \<and>
     (\<forall>p q. holds_lock (pc ?c p) \<and> holds_lock (pc ?c q) \<longrightarrow> p = q) \<and>
     (\<forall>p. saw_free (pc ?c p) \<longrightarrow> lock_owner ?c = Some p) \<and>
     (\<forall>p \<in> T. \<forall>q \<in> T. flag_up (pc ?c p) \<and> flag_up (pc ?c q) \<longrightarrow> p = q) \<and>
     (T \<noteq> {} \<and> (\<forall>p \<in> T. pc ?c p = Done_ok \<or> pc ?c p = Done_taken)
        \<longrightarrow> (\<exists>w \<in> T.
               authenticated (mem (srv ?c) w) \<and> username (mem (srv ?c) w) = uname \<and>
               Send (socket_fd (mem (srv ?c) w)) (frame (''OK Authenticated as '' @ uname))
                 \<in> set (trace (srv ?c)) \<and>
               (\<forall>p \<in> T. p \<noteq> w \<longrightarrow>
                  \<not> authenticated (mem (srv ?c) p) \<and>
                  Send (socket_fd (mem (srv ?c) p)) (frame ''ERROR Username taken'')
                    \<in> set (trace (srv ?c)))))"
    by blast
  show ?thesis
    by (intro conjI safe[THEN conjunct1] safe[THEN conjunct2, THEN conjunct1]
        safe[THEN conjunct2, THEN conjunct2, THEN conjunct1]
        safe[THEN conjunct2, THEN conjunct2, THEN conjunct2, THEN conjunct1]
        safe[THEN conjunct2, THEN conjunct2, THEN conjunct2, THEN conjunct2] 6 7 8)
qed

lemma race_start_ok: "auth_start ''carol'' {10, 20, 30} race_start"
  by (simp add: auth_start_def race_start_def two_clients_simps accept_client_def add_client_def
      MAX_USERNAME_def username_available_iff names_unique_def)

lemma race_end:
  "pc (auth_run ''carol'' race_schedule race_start) 10 = Done_ok"
  "pc (auth_run ''carol'' race_schedule race_start) 20 = Done_taken"
  "pc (auth_run ''carol'' race_schedule race_start) 30 = Done_taken"
  "sends (new_events (srv race_start) (srv (auth_run ''carol'' race_schedule race_start))) =
     [(4, ''OK Authenticated as carol'' @ [LF]), (6, ''ERROR Username taken'' @ [LF]),
      (5, ''ERROR Username taken'' @ [LF])]"
  "mem (srv (auth_run ''carol'' race_schedule race_start)) 10 =
     \<lparr>socket_fd = 4, username = ''carol'', authenticated = True\<rparr>"
  by code_simp+

theorem auth_race_one_winner_witness:
  "names_unique (srv (auth_run ''carol'' race_schedule race_start)) \<and>
   pc (auth_run ''carol'' race_schedule race_start) 10 = Done_ok \<and>
   pc (auth_run ''carol'' race_schedule race_start) 20 = Done_taken \<and>
   pc (auth_run ''carol'' race_schedule race_start) 30 = Done_taken \<and>
   authenticated (mem (srv (auth_run ''carol'' race_schedule race_start)) 10) \<and>
   username (mem (srv (auth_run ''carol'' race_schedule race_start)) 10) = ''carol'' \<and>
   sends (new_events (srv race_start) (srv (auth_run ''carol'' race_schedule race_start))) =
     [(4, ''OK Authenticated as carol'' @ [LF]), (6, ''ERROR Username taken'' @ [LF]),
      (5, ''ERROR Username taken'' @ [LF])]"
proof -
  from auth_race_one_winner[OF race_start_ok, of race_schedule]
  have "names_unique (srv (auth_run ''carol'' race_schedule race_start))" by (rule conjunct1)
  then show ?thesis by (simp add: race_end)
qed

end
